theory Spec2Isabelle
  imports Main "HOL-Library.Word"
begin

unbundle bit_operations_syntax

section \<open>The machine state of interpreter.go\<close>

type_synonym u8 = "8 word"
type_synonym u16 = "16 word"

text \<open>
  \<open>ErrUnknownOpcode\<close> is the only error value a handler returns. A Go index out of
  range is a runtime panic: it is no return value, the call never comes back, so it is
  kept apart as a \<open>fault\<close>. \<open>EOF\<close> is what \<open>bytes.Reader.Read\<close> reports on an empty
  source.
\<close>

datatype error = ErrUnknownOpcode

datatype fault = IndexOutOfRange

datatype io_error = EOF

text \<open>
  The struct \<open>Interpreter\<close>. Fixed-size Go arrays are lists, their sizes are stated by
  \<open>well_formed\<close> below. The field \<open>dispatch\<close> is the constant table \<open>dispatch\<close> further down.
  The callback \<open>beep\<close> is an effect on the outside world: the field \<open>beeped\<close> records
  the arguments of its invocations, oldest first. The callback handed to
  \<open>NewInterpreter\<close> is taken to be a function, not \<open>nil\<close>.
\<close>

record interp =
  pc :: u16
  sp :: u16
  dt :: u8
  st :: u8
  vx :: "u8 list"
  i :: u16
  stack :: "u16 list"
  memory :: "u8 list"
  display :: "u8 list list"
  keys :: "bool list"
  lastReleasedKey :: "u8 option"
  opcode :: u16
  clockCycleCounter :: u8
  isSoundPlaying :: bool
  beeped :: "bool list"

definition DisplayWidth :: nat where "DisplayWidth = 64"
definition DisplayHeight :: nat where "DisplayHeight = 32"
definition CPUFrequency :: nat where "CPUFrequency = 850"
definition ClockFrequency :: nat where "ClockFrequency = 60"
definition V0 :: u8 where "V0 = 0"
definition VF :: u8 where "VF = 15"

definition digitSprites :: "u8 list" where
  "digitSprites =
    [0xf0, 0x90, 0x90, 0x90, 0xf0,
     0x20, 0x60, 0x20, 0x20, 0x70,
     0xf0, 0x10, 0xf0, 0x80, 0xf0,
     0xf0, 0x10, 0xf0, 0x10, 0xf0,
     0x90, 0x90, 0xf0, 0x10, 0x10,
     0xf0, 0x80, 0xf0, 0x10, 0xf0,
     0xf0, 0x80, 0xf0, 0x90, 0xf0,
     0xf0, 0x10, 0x20, 0x40, 0x40,
     0xf0, 0x90, 0xf0, 0x90, 0xf0,
     0xf0, 0x90, 0xf0, 0x10, 0xf0,
     0xf0, 0x90, 0xf0, 0x90, 0x90,
     0xe0, 0x90, 0xe0, 0x90, 0xe0,
     0xf0, 0x80, 0x80, 0x80, 0xf0,
     0xe0, 0x90, 0x90, 0x90, 0xe0,
     0xf0, 0x80, 0xf0, 0x80, 0xf0,
     0xf0, 0x80, 0xf0, 0x80, 0x80]"

text \<open>The array types of the struct: what Go's type system guarantees of every value.\<close>

definition well_formed :: "interp \<Rightarrow> bool" where
  "well_formed s \<longleftrightarrow>
     length (vx s) = 16 \<and> length (stack s) = 16 \<and> length (memory s) = 4096 \<and>
     length (keys s) = 16 \<and> length (display s) = DisplayHeight \<and>
     list_all (\<lambda>row. length row = DisplayWidth) (display s)"

definition NewInterpreter :: interp where
  "NewInterpreter =
     \<lparr>pc = 0x200, sp = 0, dt = 0, st = 0, vx = replicate 16 0, i = 0,
      stack = replicate 16 0, memory = replicate 4096 0,
      display = replicate DisplayHeight (replicate DisplayWidth 0),
      keys = replicate 16 False, lastReleasedKey = None, opcode = 0,
      clockCycleCounter = 0, isSoundPlaying = False, beeped = []\<rparr>"

text \<open>
  Go's \<open>copy(dst, src)\<close> on slices: the first \<open>min (len dst) (len src)\<close> elements of
  \<open>dst\<close> are overwritten.
\<close>

definition copy_into :: "'a list \<Rightarrow> 'a list \<Rightarrow> 'a list" where
  "copy_into dst src = take (length dst) src @ drop (length src) dst"

text \<open>
  \<open>Load\<close>, with the reader of cmd/main.go: a \<open>bytes.Reader\<close> over the bytes of the
  program file, read from its start. Its \<open>Read\<close> reports \<open>EOF\<close> on an empty source and
  otherwise copies as many bytes as fit.
\<close>

definition Load :: "u8 list \<Rightarrow> interp \<Rightarrow> io_error option \<times> interp" where
  "Load prog s =
     (let m1 = copy_into (memory s) digitSprites;
          m2 = take 0x200 m1 @ copy_into (drop 0x200 m1) prog
      in (if prog = [] then Some EOF else None, s\<lparr>memory := m2\<rparr>))"

text \<open>\<open>Key\<close> is \<open>uint8\<close>; \<open>i.keys[key]\<close> is bounds-checked.\<close>

definition SetKeyState :: "u8 \<Rightarrow> bool \<Rightarrow> interp \<Rightarrow> fault + interp" where
  "SetKeyState key pressed s =
     (if unat key < length (keys s) then
        (let s1 = s\<lparr>keys := (keys s)[unat key := pressed]\<rparr>
         in Inr (if \<not> pressed then s1\<lparr>lastReleasedKey := Some key\<rparr> else s1))
      else Inl IndexOutOfRange)"

section \<open>Field extraction\<close>

definition addr :: "u16 \<Rightarrow> u16" where
  "addr word = word AND 0x0fff"

definition x_nib :: "u16 \<Rightarrow> u8" where
  "x_nib word = ucast (drop_bit 8 (word AND 0x0f00))"

definition y_nib :: "u16 \<Rightarrow> u8" where
  "y_nib word = ucast (drop_bit 4 (word AND 0x00f0))"

definition n_nib :: "u16 \<Rightarrow> u8" where
  "n_nib word = ucast (word AND 0x000f)"

definition byte :: "u16 \<Rightarrow> u8" where
  "byte word = ucast (word AND 0x00ff)"

section \<open>Handlers\<close>

text \<open>
  A handler mutates the receiver and returns an \<open>error\<close>: the model returns the error
  (or \<open>None\<close> for \<open>nil\<close>) with the state as the handler left it, or the fault.
\<close>

type_synonym result = "fault + (error option \<times> interp)"

definition ok :: "interp \<Rightarrow> result" where
  "ok s = Inr (None, s)"

definition unknown :: "interp \<Rightarrow> result" where
  "unknown s = Inr (Some ErrUnknownOpcode, s)"

definition panic :: result where
  "panic = Inl IndexOutOfRange"

text \<open>\<open>i.vx[r]\<close> for a register number \<open>r\<close>, and the store \<open>i.vx[r] = v\<close>.\<close>

definition reg :: "interp \<Rightarrow> u8 \<Rightarrow> u8" where
  "reg s r = vx s ! unat r"

definition set_reg :: "u8 \<Rightarrow> u8 \<Rightarrow> interp \<Rightarrow> interp" where
  "set_reg r v s = s\<lparr>vx := (vx s)[unat r := v]\<rparr>"

definition advance :: "interp \<Rightarrow> interp" where
  "advance s = s\<lparr>pc := pc s + 2\<rparr>"

text \<open>
  \<open>for k := range n\<close> with a body that may panic: the body runs for \<open>k = 0, ..., n - 1\<close>
  in this order and the loop stops at the first fault.
\<close>

fun for_each :: "nat list \<Rightarrow> (nat \<Rightarrow> 's \<Rightarrow> fault + 's) \<Rightarrow> 's \<Rightarrow> fault + 's" where
  "for_each [] body s = Inr s"
| "for_each (k # ks) body s =
     (case body k s of Inl e \<Rightarrow> Inl e | Inr s' \<Rightarrow> for_each ks body s')"

definition for_range :: "nat \<Rightarrow> (nat \<Rightarrow> 's \<Rightarrow> fault + 's) \<Rightarrow> 's \<Rightarrow> fault + 's" where
  "for_range n body s = for_each [0..<n] body s"

definition opHandler0 :: "interp \<Rightarrow> result" where
  "opHandler0 s =
     (if opcode s AND 0x00ff = 0x00e0 then
        ok (advance (s\<lparr>display := map (map (\<lambda>_. 0)) (display s)\<rparr>))
      else if opcode s AND 0x00ff = 0x00ee then
        (let s1 = s\<lparr>sp := sp s - 1\<rparr>
         in if unat (sp s1) < length (stack s1)
            then ok (advance (s1\<lparr>pc := stack s1 ! unat (sp s1)\<rparr>))
            else panic)
      else unknown s)"

definition opHandler1 :: "interp \<Rightarrow> result" where
  "opHandler1 s = ok (s\<lparr>pc := addr (opcode s)\<rparr>)"

definition opHandler2 :: "interp \<Rightarrow> result" where
  "opHandler2 s =
     (if unat (sp s) < length (stack s) then
        (let s1 = s\<lparr>stack := (stack s)[unat (sp s) := pc s]\<rparr>;
             s2 = s1\<lparr>sp := sp s1 + 1\<rparr>
         in ok (s2\<lparr>pc := addr (opcode s2)\<rparr>))
      else panic)"

definition opHandler3 :: "interp \<Rightarrow> result" where
  "opHandler3 s =
     (let s1 = advance s
      in ok (if reg s1 (x_nib (opcode s1)) = byte (opcode s1) then advance s1 else s1))"

definition opHandler4 :: "interp \<Rightarrow> result" where
  "opHandler4 s =
     (let s1 = advance s
      in ok (if reg s1 (x_nib (opcode s1)) \<noteq> byte (opcode s1) then advance s1 else s1))"

definition opHandler5 :: "interp \<Rightarrow> result" where
  "opHandler5 s =
     (if opcode s AND 0x000f \<noteq> 0 then unknown s
      else
        (let s1 = advance s
         in ok (if reg s1 (x_nib (opcode s1)) = reg s1 (y_nib (opcode s1))
                then advance s1 else s1)))"

definition opHandler6 :: "interp \<Rightarrow> result" where
  "opHandler6 s = ok (advance (set_reg (x_nib (opcode s)) (byte (opcode s)) s))"

definition opHandler7 :: "interp \<Rightarrow> result" where
  "opHandler7 s =
     ok (advance (set_reg (x_nib (opcode s))
                    (reg s (x_nib (opcode s)) + byte (opcode s)) s))"

definition opHandler8 :: "interp \<Rightarrow> result" where
  "opHandler8 s =
     (let x = x_nib (opcode s); y = y_nib (opcode s); sel = opcode s AND 0x000f in
      if sel = 0x0000 then ok (advance (set_reg x (reg s y) s))
      else if sel = 0x0001 then ok (advance (set_reg x (reg s x OR reg s y) s))
      else if sel = 0x0002 then ok (advance (set_reg x (reg s x AND reg s y) s))
      else if sel = 0x0003 then ok (advance (set_reg x (reg s x XOR reg s y) s))
      else if sel = 0x0004 then
        (let sum = (ucast (reg s x) :: u16) + ucast (reg s y);
             s1 = set_reg x (ucast sum) s;
             s2 = (if sum > 255 then set_reg VF 1 s1 else set_reg VF 0 s1)
         in ok (advance s2))
      else if sel = 0x0005 then
        (let flag = (if reg s x \<ge> reg s y then 1 else 0);
             s1 = set_reg x (reg s x - reg s y) s;
             s2 = set_reg VF flag s1
         in ok (advance s2))
      else if sel = 0x0006 then
        (let flag = reg s x AND 0x0001;
             s1 = set_reg x (drop_bit 1 (reg s x)) s;
             s2 = set_reg VF flag s1
         in ok (advance s2))
      else if sel = 0x0007 then
        (let flag = (if reg s y \<ge> reg s x then 1 else 0);
             s1 = set_reg x (reg s y - reg s x) s;
             s2 = set_reg VF flag s1
         in ok (advance s2))
      else if sel = 0x000E then
        (let flag = drop_bit 7 (reg s x);
             s1 = set_reg x (push_bit 1 (reg s x)) s;
             s2 = set_reg VF flag s1
         in ok (advance s2))
      else unknown s)"

definition opHandler9 :: "interp \<Rightarrow> result" where
  "opHandler9 s =
     (let s1 = advance s
      in ok (if reg s1 (x_nib (opcode s1)) \<noteq> reg s1 (y_nib (opcode s1))
             then advance s1 else s1))"

definition opHandlerA :: "interp \<Rightarrow> result" where
  "opHandlerA s = ok (advance (s\<lparr>i := addr (opcode s)\<rparr>))"

definition opHandlerB :: "interp \<Rightarrow> result" where
  "opHandlerB s = ok (s\<lparr>pc := addr (opcode s) + ucast (reg s V0)\<rparr>)"

text \<open>
  \<open>rnd\<close> is the byte \<open>uint8(rand.Intn(256))\<close> drawn by this call: the random source is
  outside the machine, so the handler takes what it yields as an argument.
\<close>

definition opHandlerC :: "u8 \<Rightarrow> interp \<Rightarrow> result" where
  "opHandlerC rnd s =
     ok (advance (set_reg (x_nib (opcode s)) (rnd AND byte (opcode s)) s))"

text \<open>
  The body of the inner loop of \<open>opHandlerD\<close>, for the row \<open>y\<close> and the column \<open>x\<close>:
  \<open>startY + y\<close> and \<open>startX + x\<close> are \<open>uint8\<close> sums, \<open>i.i + uint16(y)\<close> is a \<open>uint16\<close>
  sum, and the read of memory is bounds-checked.
\<close>

definition draw_pixel :: "u8 \<Rightarrow> u8 \<Rightarrow> nat \<Rightarrow> nat \<Rightarrow> interp \<Rightarrow> fault + interp" where
  "draw_pixel startX startY y x s =
     (let r = unat ((startY + of_nat y) mod of_nat DisplayHeight);
          c = unat ((startX + of_nat x) mod of_nat DisplayWidth);
          old = display s ! r ! c;
          a = unat (i s + of_nat y)
      in if a < length (memory s) then
           (let new = old XOR (drop_bit (7 - x) (memory s ! a) AND 1);
                s1 = s\<lparr>display := (display s)[r := (display s ! r)[c := new]]\<rparr>
            in Inr (if old = 1 \<and> new = 0 then set_reg VF 1 s1 else s1))
         else Inl IndexOutOfRange)"

definition opHandlerD :: "interp \<Rightarrow> result" where
  "opHandlerD s =
     (let startX = reg s (x_nib (opcode s));
          startY = reg s (y_nib (opcode s));
          height = n_nib (opcode s);
          s1 = set_reg VF 0 s
      in case for_range (unat height)
                (\<lambda>y. for_range 8 (\<lambda>x. draw_pixel startX startY y x)) s1 of
           Inl e \<Rightarrow> Inl e
         | Inr s2 \<Rightarrow> ok (advance s2))"

definition opHandlerE :: "interp \<Rightarrow> result" where
  "opHandlerE s =
     (let s1 = advance s in
      if opcode s1 AND 0x00ff = 0x009e then
        ok (if keys s1 ! unat (reg s1 (x_nib (opcode s1)) AND 0x0f) then advance s1 else s1)
      else if opcode s1 AND 0x00ff = 0x00a1 then
        ok (if \<not> keys s1 ! unat (reg s1 (x_nib (opcode s1)) AND 0x0f) then advance s1 else s1)
      else unknown s1)"

text \<open>The stores and loads of \<open>Fx33\<close>, \<open>Fx55\<close> and \<open>Fx65\<close>, each bounds-checked.\<close>

definition store :: "u16 \<Rightarrow> u8 \<Rightarrow> interp \<Rightarrow> fault + interp" where
  "store a v s =
     (if unat a < length (memory s) then Inr (s\<lparr>memory := (memory s)[unat a := v]\<rparr>)
      else Inl IndexOutOfRange)"

definition store_reg :: "nat \<Rightarrow> interp \<Rightarrow> fault + interp" where
  "store_reg k s = store (i s + of_nat k) (vx s ! k) s"

definition load_reg :: "nat \<Rightarrow> interp \<Rightarrow> fault + interp" where
  "load_reg k s =
     (let a = unat (i s + of_nat k)
      in if a < length (memory s) then Inr (s\<lparr>vx := (vx s)[k := memory s ! a]\<rparr>)
         else Inl IndexOutOfRange)"

definition bcd :: "u8 \<Rightarrow> interp \<Rightarrow> fault + interp" where
  "bcd v s =
     (case store (i s) (v div 100) s of
        Inl e \<Rightarrow> Inl e
      | Inr s1 \<Rightarrow>
          (case store (i s1 + 1) ((v div 10) mod 10) s1 of
             Inl e \<Rightarrow> Inl e
           | Inr s2 \<Rightarrow> store (i s2 + 2) (v mod 10) s2))"

definition opHandlerF :: "interp \<Rightarrow> result" where
  "opHandlerF s =
     (let x = x_nib (opcode s); sel = opcode s AND 0x00ff in
      if sel = 0x0007 then ok (advance (set_reg x (dt s) s))
      else if sel = 0x000a then
        (case lastReleasedKey s of
           None \<Rightarrow> ok s
         | Some k \<Rightarrow> ok (advance ((set_reg x k s)\<lparr>lastReleasedKey := None\<rparr>)))
      else if sel = 0x0015 then ok (advance (s\<lparr>dt := reg s x\<rparr>))
      else if sel = 0x0018 then ok (advance (s\<lparr>st := reg s x\<rparr>))
      else if sel = 0x001e then ok (advance (s\<lparr>i := i s + ucast (reg s x)\<rparr>))
      else if sel = 0x0029 then ok (advance (s\<lparr>i := ucast ((reg s x AND 0x0f) * 5)\<rparr>))
      else if sel = 0x0033 then
        (case bcd (reg s x) s of Inl e \<Rightarrow> Inl e | Inr s1 \<Rightarrow> ok (advance s1))
      else if sel = 0x0055 then
        (case for_range (unat (x + 1)) store_reg s of
           Inl e \<Rightarrow> Inl e | Inr s1 \<Rightarrow> ok (advance s1))
      else if sel = 0x0065 then
        (case for_range (unat (x + 1)) load_reg s of
           Inl e \<Rightarrow> Inl e | Inr s1 \<Rightarrow> ok (advance s1))
      else unknown s)"

section \<open>The cycle driver\<close>

definition dispatch :: "u8 \<Rightarrow> (interp \<Rightarrow> result) list" where
  "dispatch rnd =
     [opHandler0, opHandler1, opHandler2, opHandler3,
      opHandler4, opHandler5, opHandler6, opHandler7,
      opHandler8, opHandler9, opHandlerA, opHandlerB,
      opHandlerC rnd, opHandlerD, opHandlerE, opHandlerF]"

text \<open>
  The instruction word at \<open>pc\<close>: \<open>uint16(i.memory[i.pc])<<8 | uint16(i.memory[i.pc+1])\<close>,
  both reads bounds-checked, \<open>i.pc+1\<close> a \<open>uint16\<close> sum.
\<close>

definition fetch :: "interp \<Rightarrow> u16 option" where
  "fetch s =
     (if unat (pc s) < length (memory s) \<and> unat (pc s + 1) < length (memory s)
      then Some (push_bit 8 (ucast (memory s ! unat (pc s)))
                 OR ucast (memory s ! unat (pc s + 1)))
      else None)"

text \<open>The second half of \<open>Cycle\<close>: the timers, every \<open>CPUFrequency/ClockFrequency\<close> cycles.\<close>

definition timers :: "interp \<Rightarrow> interp" where
  "timers s =
     (if clockCycleCounter s = of_nat (CPUFrequency div ClockFrequency) then
        (let s1 = (if dt s > 0 then s\<lparr>dt := dt s - 1\<rparr> else s);
             s2 = (if st s1 > 0 then
                     (let s' = (if \<not> isSoundPlaying s1
                                then s1\<lparr>beeped := beeped s1 @ [True], isSoundPlaying := True\<rparr>
                                else s1)
                      in s'\<lparr>st := st s' - 1\<rparr>)
                   else
                     (if isSoundPlaying s1
                      then s1\<lparr>beeped := beeped s1 @ [False], isSoundPlaying := False\<rparr>
                      else s1))
         in s2\<lparr>clockCycleCounter := 0\<rparr>)
      else s\<lparr>clockCycleCounter := clockCycleCounter s + 1\<rparr>)"

definition Cycle :: "u8 \<Rightarrow> interp \<Rightarrow> result" where
  "Cycle rnd s =
     (case fetch s of
        None \<Rightarrow> panic
      | Some w \<Rightarrow>
          (let s1 = s\<lparr>opcode := w\<rparr>
           in case (dispatch rnd ! unat (drop_bit 12 (opcode s1))) s1 of
                Inl e \<Rightarrow> Inl e
              | Inr (Some err, s2) \<Rightarrow> Inr (Some err, s2)
              | Inr (None, s2) \<Rightarrow> ok (timers s2)))"


section \<open>Callers and observations\<close>

text \<open>The state a call left behind when it returned \<open>nil\<close>.\<close>

definition returned :: "result \<Rightarrow> interp option" where
  "returned r = (case r of Inr (None, s) \<Rightarrow> Some s | _ \<Rightarrow> None)"

text \<open>
  The loop of cmd/main.go without its key events: one \<open>Cycle\<close> after the other, stopped
  by the first error or fault. The list holds the random bytes on offer, one per cycle.
\<close>

fun Cycles :: "u8 list \<Rightarrow> interp \<Rightarrow> result" where
  "Cycles [] s = ok s"
| "Cycles (rnd # rnds) s =
     (case Cycle rnd s of
        Inl e \<Rightarrow> Inl e
      | Inr (Some err, s') \<Rightarrow> Inr (Some err, s')
      | Inr (None, s') \<Rightarrow> Cycles rnds s')"

text \<open>
  The states a caller can bring the machine into through the exported operations. A
  call that returned an error has still mutated the receiver, and the caller may go on.
\<close>

inductive reachable :: "interp \<Rightarrow> bool" where
  new: "reachable NewInterpreter"
| load: "reachable s \<Longrightarrow> reachable (snd (Load prog s))"
| key: "reachable s \<Longrightarrow> SetKeyState k pressed s = Inr s' \<Longrightarrow> reachable s'"
| cycle: "reachable s \<Longrightarrow> Cycle rnd s = Inr (err, s') \<Longrightarrow> reachable s'"

text \<open>A new machine with the given bytes at \<open>0x200\<close> and the given registers.\<close>

definition machine :: "u8 list \<Rightarrow> u8 list \<Rightarrow> interp" where
  "machine prog regs = (snd (Load prog NewInterpreter))\<lparr>vx := regs\<rparr>"

text \<open>
  The fields only the cycle driver writes, and the relation between the states before
  and after a handler: array sizes are kept and the driver's fields are untouched.
\<close>

definition driver_fields :: "interp \<Rightarrow> bool list \<times> bool \<times> u8" where
  "driver_fields s = (beeped s, isSoundPlaying s, clockCycleCounter s)"

definition kept :: "interp \<Rightarrow> interp \<Rightarrow> bool" where
  "kept s s' \<longleftrightarrow> (well_formed s \<longrightarrow> well_formed s') \<and> driver_fields s' = driver_fields s"



text \<open>What the loops of \<open>Fx55\<close> and \<open>Fx65\<close> keep: the address register and the array sizes.\<close>

definition mem_inv :: "u16 \<Rightarrow> interp \<Rightarrow> bool" where
  "mem_inv a t \<longleftrightarrow> i t = a \<and> well_formed t"

text \<open>
  The words of the description of \<open>Dxyn\<close>: the display cell at a row and a column, the
  sprite bit of a sprite row and column (bit \<open>7 - col\<close> of the byte at \<open>I + row\<close>), and the
  wrapped coordinates \<open>(startY + row) mod 32\<close> and \<open>(startX + col) mod 64\<close>.
\<close>

definition cell :: "interp \<Rightarrow> nat \<Rightarrow> nat \<Rightarrow> u8" where
  "cell s r c = display s ! r ! c"

definition sprite_bit :: "interp \<Rightarrow> nat \<Rightarrow> nat \<Rightarrow> u8" where
  "sprite_bit s row col = drop_bit (7 - col) (memory s ! (unat (i s) + row)) AND 1"

definition wrap_row :: "nat \<Rightarrow> nat \<Rightarrow> nat" where
  "wrap_row startY row = (startY + row) mod 32"

definition wrap_col :: "nat \<Rightarrow> nat \<Rightarrow> nat" where
  "wrap_col startX col = (startX + col) mod 64"

text \<open>The display cell a call left behind when it returned \<open>nil\<close>.\<close>

definition pixel :: "nat \<Rightarrow> nat \<Rightarrow> result \<Rightarrow> u8 option" where
  "pixel r c res = map_option (\<lambda>s. cell s r c) (returned res)"

text \<open>
  The sprite positions the loops of \<open>opHandlerD\<close> have passed when they reach row \<open>y\<close> and
  column \<open>k\<close>, the positions at which a set pixel is erased, and what the loops have
  established once the positions \<open>P\<close> are drawn.
\<close>

definition pairs_before :: "nat \<Rightarrow> nat \<Rightarrow> (nat \<times> nat) set" where
  "pairs_before y k = {(row, col). row < y \<and> col < 8 \<or> row = y \<and> col < k}"

definition erased :: "interp \<Rightarrow> nat \<Rightarrow> nat \<Rightarrow> nat \<Rightarrow> nat \<Rightarrow> bool" where
  "erased s startX startY row col \<longleftrightarrow>
     cell s (wrap_row startY row) (wrap_col startX col) = 1 \<and>
     cell s (wrap_row startY row) (wrap_col startX col) XOR sprite_bit s row col = 0"

definition drawn :: "interp \<Rightarrow> nat \<Rightarrow> nat \<Rightarrow> (nat \<times> nat) set \<Rightarrow> interp \<Rightarrow> bool" where
  "drawn s0 startX startY P t \<longleftrightarrow>
     well_formed t \<and> i t = i s0 \<and> memory t = memory s0 \<and> pc t = pc s0 \<and>
     (\<forall>(row, col) \<in> P.
        cell t (wrap_row startY row) (wrap_col startX col)
          = cell s0 (wrap_row startY row) (wrap_col startX col) XOR sprite_bit s0 row col) \<and>
     (\<forall>r < 32. \<forall>c < 64.
        (\<forall>(row, col) \<in> P. r \<noteq> wrap_row startY row \<or> c \<noteq> wrap_col startX col) \<longrightarrow>
        cell t r c = cell s0 r c) \<and>
     vx t = (vx s0)[15 := (if \<exists>(row, col) \<in> P. erased s0 startX startY row col then 1 else vx s0 ! 15)]"





section \<open>Decoding\<close>

lemma and15_lt16: "unat ((a :: u16) AND 15) < 16"
proof -
  have "a AND 15 \<le> 15" by (rule word_and_le1)
  then have "unat (a AND 15) \<le> 15" by (simp add: word_le_nat_alt)
  then show ?thesis by simp
qed

lemma ucast_small: "unat (a :: u16) < 256 \<Longrightarrow> unat (ucast a :: u8) = unat a"
  by (simp add: unsigned_ucast_eq take_bit_nat_eq_self)

lemma x_nib_lt: "unat (x_nib w) < 16"
  using and15_lt16[of "drop_bit 8 w"] by (simp add: x_nib_def ucast_small)

lemma y_nib_lt: "unat (y_nib w) < 16"
  using and15_lt16[of "drop_bit 4 w"] by (simp add: y_nib_def ucast_small)

lemma n_nib_lt: "unat (n_nib w) < 16"
  using and15_lt16[of "w"] by (simp add: n_nib_def ucast_small)

lemma top_lt: "unat (drop_bit 12 (w :: u16)) < 16"
proof -
  have "unat w < 65536" using unsigned_less[of w, where 'a=nat] by simp
  then show ?thesis by (simp add: unat_drop_bit_eq drop_bit_eq_div unat_div)
qed

lemma unat_u8_lt: "unat (a :: u8) < 256"
  using unsigned_less[of a, where 'a=nat] by simp

lemma unat_u16_lt: "unat (a :: u16) < 65536"
  using unsigned_less[of a, where 'a=nat] by simp

lemma unat_ucast_u8_u16: "unat (ucast (a :: u8) :: u16) = unat a"
  using unat_u8_lt[of a] by (simp add: unsigned_ucast_eq take_bit_nat_eq_self)

section \<open>One cycle\<close>

lemma Cycle_fetch:
  "fetch s = Some w \<Longrightarrow>
   Cycle rnd s =
     (case (dispatch rnd ! unat (drop_bit 12 w)) (s\<lparr>opcode := w\<rparr>) of
        Inl e \<Rightarrow> Inl e
      | Inr (Some err, s2) \<Rightarrow> Inr (Some err, s2)
      | Inr (None, s2) \<Rightarrow> ok (timers s2))"
  by (simp add: Cycle_def)

lemma timers_frame:
  "pc (timers s) = pc s" "sp (timers s) = sp s" "vx (timers s) = vx s" "i (timers s) = i s"
  "stack (timers s) = stack s" "memory (timers s) = memory s" "display (timers s) = display s"
  "keys (timers s) = keys s" "lastReleasedKey (timers s) = lastReleasedKey s"
  "opcode (timers s) = opcode s"
  by (simp_all add: timers_def Let_def)

lemma well_formed_timers: "well_formed (timers s) = well_formed s"
  by (simp add: well_formed_def timers_frame)

lemma reg_timers: "reg (timers s) r = reg s r"
  by (simp add: reg_def timers_frame)

lemma fetch_timers: "fetch (timers s) = fetch s"
  by (simp add: fetch_def timers_frame)

lemma fetch_cong: "pc s' = pc s \<Longrightarrow> memory s' = memory s \<Longrightarrow> fetch s' = fetch s"
  by (simp add: fetch_def)

section \<open>Loading a program\<close>

lemma length_copy_into: "length (copy_into dst src) = length dst"
  by (simp add: copy_into_def)

lemma length_memory_Load: "length (memory (snd (Load prog s))) = length (memory s)"
  by (auto simp add: Load_def Let_def length_copy_into min_def)

lemma copy_into_nth: "k < length src \<Longrightarrow> k < length dst \<Longrightarrow> copy_into dst src ! k = src ! k"
  by (simp add: copy_into_def nth_append)

lemma memory_Load_nth:
  assumes "k < length prog" and "0x200 + k < length (memory s)"
  shows "memory (snd (Load prog s)) ! (0x200 + k) = prog ! k"
proof -
  let ?m1 = "copy_into (memory s) digitSprites"
  have l1: "length ?m1 = length (memory s)" by (simp add: length_copy_into)
  have "memory (snd (Load prog s)) = take 0x200 ?m1 @ copy_into (drop 0x200 ?m1) prog"
    by (simp add: Load_def Let_def)
  moreover have "length (take 0x200 ?m1) = 0x200" using assms l1 by simp
  moreover have "k < length (drop 0x200 ?m1)" using assms l1 by simp
  ultimately show ?thesis using assms
    by (simp add: nth_append copy_into_nth del: length_take length_drop)
qed

lemma machine_fields:
  "pc (machine prog regs) = 0x200" "sp (machine prog regs) = 0"
  "dt (machine prog regs) = 0" "st (machine prog regs) = 0"
  "vx (machine prog regs) = regs" "i (machine prog regs) = 0"
  "stack (machine prog regs) = replicate 16 0"
  "display (machine prog regs) = replicate DisplayHeight (replicate DisplayWidth 0)"
  "keys (machine prog regs) = replicate 16 False"
  "lastReleasedKey (machine prog regs) = None"
  "clockCycleCounter (machine prog regs) = 0"
  "isSoundPlaying (machine prog regs) = False"
  "beeped (machine prog regs) = []"
  by (simp_all add: machine_def Load_def Let_def NewInterpreter_def)

lemma length_memory_machine: "length (memory (machine prog regs)) = 4096"
  by (simp add: machine_def length_memory_Load) (simp add: NewInterpreter_def)

lemma memory_machine_nth:
  "k < length prog \<Longrightarrow> k < 3584 \<Longrightarrow> memory (machine prog regs) ! (0x200 + k) = prog ! k"
  using memory_Load_nth[of k prog NewInterpreter]
  by (simp add: machine_def) (simp add: NewInterpreter_def)

lemma well_formed_machine: "length regs = 16 \<Longrightarrow> well_formed (machine prog regs)"
  by (simp add: well_formed_def machine_fields length_memory_machine list_all_length
      DisplayHeight_def DisplayWidth_def)

lemma fetch_machine:
  "fetch (machine (a # b # rest) regs) = Some (push_bit 8 (ucast a) OR ucast b)"
  using memory_machine_nth[of 0 "a # b # rest" regs] memory_machine_nth[of 1 "a # b # rest" regs]
  by (simp add: fetch_def machine_fields length_memory_machine)

lemma memory_machine_at:
  "512 \<le> a \<Longrightarrow> a - 512 < length prog \<Longrightarrow> a < 4096 \<Longrightarrow>
   memory (machine prog regs) ! a = prog ! (a - 512)"
  using memory_machine_nth[of "a - 512" prog regs] by simp

section \<open>Family 8: addition and subtraction\<close>

lemma unat_sum_u16: "unat ((ucast (a::u8) :: u16) + ucast (b::u8)) = unat a + unat b"
  using unat_u8_lt[of a] unat_u8_lt[of b]
  by (simp add: unat_word_ariths unat_ucast_u8_u16)

lemma carry_u16: "((ucast (a::u8) :: u16) + ucast (b::u8) > 255) = (unat a + unat b > 255)"
  by (simp add: word_less_nat_alt unat_sum_u16)

lemma sum_u16: "(ucast ((ucast (a::u8) :: u16) + ucast (b::u8)) :: u8) = a + b"
proof -
  have "unat (ucast ((ucast a :: u16) + ucast b) :: u8)
          = unat ((ucast a :: u16) + ucast b) mod 256"
    by (simp add: unsigned_ucast_eq take_bit_eq_mod)
  also have "\<dots> = (unat a + unat b) mod 256"
    by (simp only: unat_sum_u16)
  also have "\<dots> = unat (a + b)"
    by (simp add: unat_word_ariths)
  finally show ?thesis by (simp add: word_unat_eq_iff)
qed

text \<open>
  C2. Executing \<open>8xy4\<close>, for every pair of register numbers (the flag register as
  \<open>x\<close> or \<open>y\<close> included) and all byte values \<open>a = Vx\<close>, \<open>b = Vy\<close>: the sum
  \<open>(a + b) mod 256\<close> is stored into \<open>Vx\<close>, then, as the last store of the handler, the
  flag register receives 1 if \<open>a + b > 255\<close> and 0 otherwise, both computed from the
  values the operands had before the instruction. So the flag register ends as 1 iff
  \<open>a + b > 255\<close>, and \<open>Vx\<close> ends as the sum whenever \<open>x\<close> is not the flag register.
\<close>

theorem add_8xy4:
  assumes "well_formed s" and "fetch s = Some w"
    and "drop_bit 12 w = 8" and "w AND 0x000f = 4"
  shows "\<exists>s'. Cycle rnd s = Inr (None, s') \<and>
      vx s' = (vx s)[unat (x_nib w) := reg s (x_nib w) + reg s (y_nib w),
                     unat VF := (if 255 < unat (reg s (x_nib w)) + unat (reg s (y_nib w)) then 1 else 0)] \<and>
      (reg s' VF = 1 \<longleftrightarrow> 255 < unat (reg s (x_nib w)) + unat (reg s (y_nib w))) \<and>
      (reg s' VF = 0 \<longleftrightarrow> unat (reg s (x_nib w)) + unat (reg s (y_nib w)) \<le> 255) \<and>
      unat (reg s (x_nib w) + reg s (y_nib w))
        = (unat (reg s (x_nib w)) + unat (reg s (y_nib w))) mod 256 \<and>
      (x_nib w \<noteq> VF \<longrightarrow> reg s' (x_nib w) = reg s (x_nib w) + reg s (y_nib w))"
proof -
  let ?a = "reg s (x_nib w)" and ?b = "reg s (y_nib w)"
  let ?c = "if 255 < unat ?a + unat ?b then 1 else 0 :: u8"
  let ?s' = "timers (advance (set_reg VF ?c (set_reg (x_nib w) (?a + ?b) (s\<lparr>opcode := w\<rparr>))))"
  have len: "length (vx s) = 16" using assms(1) by (simp add: well_formed_def)
  have run: "Cycle rnd s = Inr (None, ?s')"
    using assms(2-4)
    by (simp add: Cycle_fetch dispatch_def opHandler8_def Let_def ok_def reg_def
        set_reg_def advance_def carry_u16 sum_u16)
  have regs: "vx ?s' = (vx s)[unat (x_nib w) := ?a + ?b, unat VF := ?c]"
    by (simp add: timers_frame advance_def set_reg_def)
  have flag: "reg ?s' VF = ?c"
    using len by (simp add: reg_def VF_def timers_frame advance_def set_reg_def)
  have res: "x_nib w \<noteq> VF \<Longrightarrow> reg ?s' (x_nib w) = ?a + ?b"
    using len x_nib_lt[of w]
    by (simp add: reg_def VF_def timers_frame advance_def set_reg_def word_unat_eq_iff)
  show ?thesis
    using run regs flag res by (simp add: unat_word_ariths)
qed


theorem add_8xy4_witness:
  "well_formed (machine [0x8F, 0x14] ((replicate 16 0)[15 := 200, 1 := 100])) \<and>
   fetch (machine [0x8F, 0x14] ((replicate 16 0)[15 := 200, 1 := 100])) = Some 0x8F14 \<and>
   drop_bit 12 (0x8F14 :: u16) = 8 \<and> (0x8F14 :: u16) AND 0x000f = 4 \<and>
   (\<exists>s'. Cycle 0 (machine [0x8F, 0x14] ((replicate 16 0)[15 := 200, 1 := 100])) = Inr (None, s') \<and>
      reg s' VF = 1 \<and> reg s' 1 = 100)"
proof -
  let ?m = "machine [0x8F, 0x14] ((replicate 16 0)[15 := 200, 1 := 100])"
  have wf: "well_formed ?m" by (simp add: well_formed_machine)
  have f: "fetch ?m = Some 0x8F14" by (simp add: fetch_machine)
  have x: "x_nib 0x8F14 = 15" and y: "y_nib 0x8F14 = 1" by (simp_all add: x_nib_def y_nib_def)
  from add_8xy4[OF wf f, of 0] obtain s' where
    "Cycle 0 ?m = Inr (None, s')" "reg s' VF = 1" "vx s' = (vx ?m)[unat (x_nib 0x8F14) := reg ?m (x_nib 0x8F14) + reg ?m (y_nib 0x8F14),
                     unat VF := (if 255 < unat (reg ?m (x_nib 0x8F14)) + unat (reg ?m (y_nib 0x8F14)) then 1 else 0)]"
    by (auto simp add: x y reg_def machine_fields)
  then show ?thesis using wf f by (auto simp add: x y reg_def machine_fields VF_def)
qed

text \<open>
  C3. Executing \<open>8xy5\<close>, for all byte values of \<open>Vx\<close> and \<open>Vy\<close>: the flag register is
  set to 1 iff \<open>Vx \<ge> Vy\<close> (equality included) and to 0 otherwise, and \<open>(Vx - Vy) mod 256\<close>
  is stored into \<open>Vx\<close>, the flag being written last. With \<open>Vx = 5\<close>, \<open>Vy = 3\<close> the flag
  is 1 and the result 2; with \<open>Vx = 3\<close>, \<open>Vy = 5\<close> the flag is 0 and the result 254.
\<close>

theorem sub_8xy5:
  assumes "well_formed s" and "fetch s = Some w"
    and "drop_bit 12 w = 8" and "w AND 0x000f = 5"
  shows "\<exists>s'. Cycle rnd s = Inr (None, s') \<and>
      vx s' = (vx s)[unat (x_nib w) := reg s (x_nib w) - reg s (y_nib w),
                     unat VF := (if unat (reg s (y_nib w)) \<le> unat (reg s (x_nib w)) then 1 else 0)] \<and>
      (reg s' VF = 1 \<longleftrightarrow> unat (reg s (y_nib w)) \<le> unat (reg s (x_nib w))) \<and>
      (reg s' VF = 0 \<longleftrightarrow> unat (reg s (x_nib w)) < unat (reg s (y_nib w))) \<and>
      uint (reg s (x_nib w) - reg s (y_nib w))
        = (uint (reg s (x_nib w)) - uint (reg s (y_nib w))) mod 256 \<and>
      (x_nib w \<noteq> VF \<longrightarrow> reg s' (x_nib w) = reg s (x_nib w) - reg s (y_nib w)) \<and>
      (x_nib w \<noteq> VF \<and> reg s (x_nib w) = 5 \<and> reg s (y_nib w) = 3 \<longrightarrow>
         reg s' VF = 1 \<and> reg s' (x_nib w) = 2) \<and>
      (x_nib w \<noteq> VF \<and> reg s (x_nib w) = 3 \<and> reg s (y_nib w) = 5 \<longrightarrow>
         reg s' VF = 0 \<and> reg s' (x_nib w) = 254)"
proof -
  define a where "a = reg s (x_nib w)"
  define b where "b = reg s (y_nib w)"
  define c :: u8 where "c = (if unat b \<le> unat a then 1 else 0)"
  define s' where
    "s' = timers (advance (set_reg VF c (set_reg (x_nib w) (a - b) (s\<lparr>opcode := w\<rparr>))))"
  have len: "length (vx s) = 16" using assms(1) by (simp add: well_formed_def)
  have run: "Cycle rnd s = Inr (None, s')"
    using assms(2-4) unfolding s'_def c_def a_def b_def
    by (simp add: Cycle_fetch dispatch_def opHandler8_def Let_def ok_def reg_def
        set_reg_def advance_def word_le_nat_alt)
  have regs: "vx s' = (vx s)[unat (x_nib w) := a - b, unat VF := c]"
    by (simp add: s'_def timers_frame advance_def set_reg_def)
  have flag: "reg s' VF = c"
    using len by (simp add: reg_def regs VF_def)
  have res: "x_nib w \<noteq> VF \<Longrightarrow> reg s' (x_nib w) = a - b"
    using len x_nib_lt[of w] by (simp add: reg_def regs VF_def word_unat_eq_iff)
  have wrap: "uint (a - b) = (uint a - uint b) mod 256"
    by (simp add: uint_word_ariths)
  show ?thesis
    unfolding a_def[symmetric] b_def[symmetric]
    apply (rule exI[of _ s'])
    apply (intro conjI)
    subgoal by (rule run)
    subgoal using regs by (simp add: c_def)
    subgoal using flag by (simp add: c_def)
    subgoal using flag by (simp add: c_def not_le)
    subgoal by (rule wrap)
    subgoal using res by simp
    subgoal using flag res by (simp add: c_def)
    subgoal using flag res by (simp add: c_def)
    done
qed


theorem sub_8xy5_witness:
  "well_formed (machine [0x81, 0x25] ((replicate 16 0)[1 := 3, 2 := 5])) \<and>
   fetch (machine [0x81, 0x25] ((replicate 16 0)[1 := 3, 2 := 5])) = Some 0x8125 \<and>
   drop_bit 12 (0x8125 :: u16) = 8 \<and> (0x8125 :: u16) AND 0x000f = 5 \<and>
   x_nib 0x8125 \<noteq> VF \<and>
   (\<exists>s'. Cycle 0 (machine [0x81, 0x25] ((replicate 16 0)[1 := 3, 2 := 5])) = Inr (None, s') \<and>
      reg s' VF = 0 \<and> reg s' 1 = 254)"
proof -
  let ?m = "machine [0x81, 0x25] ((replicate 16 0)[1 := 3, 2 := 5])"
  have wf: "well_formed ?m" by (simp add: well_formed_machine)
  have f: "fetch ?m = Some 0x8125" by (simp add: fetch_machine)
  have x: "x_nib 0x8125 = 1" and y: "y_nib 0x8125 = 2" by (simp_all add: x_nib_def y_nib_def)
  from sub_8xy5[OF wf f, of 0] obtain s' where
    "Cycle 0 ?m = Inr (None, s')" "reg s' VF = 0" "reg s' 1 = 254"
    by (auto simp add: x y reg_def machine_fields VF_def)
  then show ?thesis using wf f by (auto simp add: x VF_def)
qed

section \<open>Return\<close>

text \<open>
  C7 (as amended). Executing \<open>00EE\<close> with a stack pointer between 1 and 16 decrements
  the stack pointer and sets the program counter to the value of the popped stack slot
  plus 2: the handler falls through to the common \<open>i.pc += 2\<close>, and the slot holds the
  address of the \<open>CALL\<close> itself, not of the instruction after it.
\<close>

theorem ret_00EE:
  assumes "well_formed s" and "fetch s = Some w"
    and "drop_bit 12 w = 0" and "w AND 0x00ff = 0x00ee"
    and "1 \<le> unat (sp s)" and "unat (sp s) \<le> 16"
  shows "\<exists>s'. Cycle rnd s = Inr (None, s') \<and>
      sp s' = sp s - 1 \<and> unat (sp s') = unat (sp s) - 1 \<and>
      pc s' = stack s ! (unat (sp s) - 1) + 2"
proof -
  have nz: "sp s \<noteq> 0" using assms(5) by (auto simp add: unat_eq_zero)
  then have dec: "unat (sp s - 1) = unat (sp s) - 1" by (rule unat_minus_one)
  have lt: "unat (sp s - 1) < length (stack s)"
    using assms(1,5,6) dec by (simp add: well_formed_def)
  have run: "Cycle rnd s = Inr (None, timers (advance
      (s\<lparr>opcode := w, sp := sp s - 1, pc := stack s ! unat (sp s - 1)\<rparr>)))"
    using assms(2-4) lt
    by (simp add: Cycle_fetch dispatch_def opHandler0_def Let_def ok_def)
  show ?thesis
    unfolding run using dec by (simp add: timers_frame advance_def)
qed

theorem ret_00EE_witness:
  "well_formed ((machine [0x00, 0xEE] (replicate 16 0))\<lparr>sp := 1, stack := (replicate 16 0)[0 := 0x300]\<rparr>) \<and>
   fetch ((machine [0x00, 0xEE] (replicate 16 0))\<lparr>sp := 1, stack := (replicate 16 0)[0 := 0x300]\<rparr>)
     = Some 0x00EE \<and>
   (\<exists>s'. Cycle 0 ((machine [0x00, 0xEE] (replicate 16 0))\<lparr>sp := 1, stack := (replicate 16 0)[0 := 0x300]\<rparr>)
           = Inr (None, s') \<and> sp s' = 0 \<and> pc s' = 0x302)"
proof -
  let ?m = "(machine [0x00, 0xEE] (replicate 16 0))\<lparr>sp := 1, stack := (replicate 16 0)[0 := 0x300]\<rparr>"
  have wf: "well_formed ?m"
    using well_formed_machine[of "replicate 16 0" "[0x00, 0xEE]"]
    by (simp add: well_formed_def)
  have f: "fetch ?m = Some 0x00EE"
    by (simp add: fetch_def machine_fields length_memory_machine memory_machine_at)
  from ret_00EE[OF wf f, of 0] show ?thesis using wf f by auto
qed

text \<open>
  C7 as stated fails: after \<open>CALL 0x204\<close> at \<open>0x200\<close> the popped slot holds \<open>0x200\<close>, and
  the \<open>RET\<close> at \<open>0x204\<close> leaves the program counter at \<open>0x202\<close>.
\<close>

theorem ret_pc_counterexample:
  "map_option sp (returned (Cycles [0] (machine [0x22, 0x04, 0, 0, 0x00, 0xEE] (replicate 16 0)))) = Some 1 \<and>
   map_option stack (returned (Cycles [0] (machine [0x22, 0x04, 0, 0, 0x00, 0xEE] (replicate 16 0))))
     = Some ((replicate 16 0)[0 := 0x200]) \<and>
   map_option sp (returned (Cycles [0, 0] (machine [0x22, 0x04, 0, 0, 0x00, 0xEE] (replicate 16 0)))) = Some 0 \<and>
   map_option pc (returned (Cycles [0, 0] (machine [0x22, 0x04, 0, 0, 0x00, 0xEE] (replicate 16 0)))) = Some 0x202"
  by (simp add: Cycle_def fetch_def machine_fields length_memory_machine memory_machine_at
      dispatch_def opHandler2_def opHandler0_def Let_def ok_def advance_def addr_def
      timers_def CPUFrequency_def ClockFrequency_def returned_def)

section \<open>The keypad\<close>

text \<open>
  C8 (as amended). \<open>SetKeyState k false\<close> records the key as up and sets the
  last-released-key marker to \<open>k\<close> whatever the state of key \<open>k\<close> was before, also when
  it was already up; \<open>SetKeyState k true\<close> records the key as down and leaves the marker
  as it was.
\<close>

theorem SetKeyState_marker:
  assumes "well_formed s" and "unat k < 16"
  shows "(\<exists>s'. SetKeyState k False s = Inr s' \<and> lastReleasedKey s' = Some k \<and>
              keys s' = (keys s)[unat k := False]) \<and>
         (\<exists>s'. SetKeyState k True s = Inr s' \<and> lastReleasedKey s' = lastReleasedKey s \<and>
              keys s' = (keys s)[unat k := True])"
  using assms by (simp add: SetKeyState_def well_formed_def Let_def)

theorem SetKeyState_marker_witness:
  "well_formed NewInterpreter \<and> unat (3 :: u8) < 16 \<and>
   (\<exists>s'. SetKeyState 3 False NewInterpreter = Inr s' \<and> lastReleasedKey s' = Some 3)"
proof -
  have wf: "well_formed NewInterpreter"
    by (simp add: well_formed_def NewInterpreter_def DisplayHeight_def DisplayWidth_def
        list_all_length)
  have k: "unat (3 :: u8) < 16" by simp
  from SetKeyState_marker[OF wf k] show ?thesis using wf by auto
qed


text \<open>
  C8 as stated fails: on a new machine key 3 is up and the marker is absent, and
  \<open>SetKeyState 3 false\<close> sets the marker to key 3.
\<close>

theorem SetKeyState_marker_counterexample:
  "keys NewInterpreter ! 3 = False \<and> lastReleasedKey NewInterpreter = None \<and>
   map_sum id lastReleasedKey (SetKeyState 3 False NewInterpreter) = Inr (Some 3)"
  by (simp add: SetKeyState_def NewInterpreter_def Let_def)


section \<open>Call and return\<close>

text \<open>
  C6. Call/return round-trip: from every state with stack pointer below 16, executing
  \<open>CALL addr\<close> (\<open>2nnn\<close>) and then at once the \<open>RET\<close> (\<open>00EE\<close>) found at \<open>addr\<close> leaves the
  program counter at the address of the instruction after the \<open>CALL\<close> (the old program
  counter plus 2) and the stack pointer at its value before the call.
\<close>

theorem call_ret_roundtrip:
  assumes "well_formed s" and "fetch s = Some w" and "drop_bit 12 w = 2"
    and "unat (sp s) < 16"
    and "unat (addr w) + 1 < 4096"
    and "memory s ! unat (addr w) = 0x00" and "memory s ! (unat (addr w) + 1) = 0xEE"
  shows "\<exists>s1 s2. Cycle r1 s = Inr (None, s1) \<and> Cycle r2 s1 = Inr (None, s2) \<and>
      pc s1 = addr w \<and> sp s1 = sp s + 1 \<and> stack s1 ! unat (sp s) = pc s \<and>
      pc s2 = pc s + 2 \<and> sp s2 = sp s"
proof -
  define s1 where
    "s1 = timers (s\<lparr>opcode := w, stack := (stack s)[unat (sp s) := pc s],
                     sp := sp s + 1, pc := addr w\<rparr>)"
  define s2 where
    "s2 = timers (advance (s1\<lparr>opcode := 0x00EE, sp := sp s, pc := pc s\<rparr>))"
  have len: "length (stack s) = 16" "length (memory s) = 4096"
    using assms(1) by (simp_all add: well_formed_def)
  have call: "Cycle r1 s = Inr (None, s1)"
    using assms(2-4) len
    by (simp add: s1_def Cycle_fetch dispatch_def opHandler2_def Let_def ok_def)
  have f1: "pc s1 = addr w" "sp s1 = sp s + 1" "memory s1 = memory s"
    "stack s1 = (stack s)[unat (sp s) := pc s]"
    by (simp_all add: s1_def timers_frame)
  have next_addr: "unat (addr w + 1) = unat (addr w) + 1"
    using assms(5) by (simp add: unat_word_ariths)
  have fetch1: "fetch s1 = Some 0x00EE"
    using assms(5-7) len next_addr by (simp add: fetch_def f1)
  have slot: "stack s1 ! unat (sp s) = pc s"
    using assms(4) len by (simp add: f1)
  have ret: "Cycle r2 s1 = Inr (None, s2)"
    using fetch1 assms(4) len slot
    by (simp add: s2_def Cycle_fetch dispatch_def opHandler0_def Let_def ok_def f1 advance_def)
  have "pc s2 = pc s + 2" "sp s2 = sp s"
    by (simp_all add: s2_def timers_frame advance_def)
  with call ret f1 slot show ?thesis by auto
qed

theorem call_ret_roundtrip_witness:
  "well_formed (machine [0x22, 0x04, 0, 0, 0x00, 0xEE] (replicate 16 0)) \<and>
   fetch (machine [0x22, 0x04, 0, 0, 0x00, 0xEE] (replicate 16 0)) = Some 0x2204 \<and>
   unat (sp (machine [0x22, 0x04, 0, 0, 0x00, 0xEE] (replicate 16 0))) < 16 \<and>
   (\<exists>s1 s2. Cycle 0 (machine [0x22, 0x04, 0, 0, 0x00, 0xEE] (replicate 16 0)) = Inr (None, s1) \<and>
      Cycle 0 s1 = Inr (None, s2) \<and> pc s2 = 0x202 \<and> sp s2 = 0)"
proof -
  let ?m = "machine [0x22, 0x04, 0, 0, 0x00, 0xEE] (replicate 16 0)"
  have wf: "well_formed ?m" by (simp add: well_formed_machine)
  have f: "fetch ?m = Some 0x2204" by (simp add: fetch_machine)
  have a: "addr 0x2204 = 0x204" by (simp add: addr_def)
  from call_ret_roundtrip[OF wf f, of 0 0] show ?thesis
    using wf f by (auto simp add: a machine_fields memory_machine_at)
qed


section \<open>Waiting for a key\<close>

lemma key_wait_blocked:
  assumes "fetch s = Some w" and "drop_bit 12 w = 0xF" and "w AND 0x00ff = 0x000a"
    and "lastReleasedKey s = None"
  shows "Cycle rnd s = Inr (None, timers (s\<lparr>opcode := w\<rparr>))"
  using assms by (simp add: Cycle_fetch dispatch_def opHandlerF_def Let_def ok_def)

lemma key_wait_blocked_again:
  assumes "fetch s = Some w" and "drop_bit 12 w = 0xF" and "w AND 0x00ff = 0x000a"
    and "lastReleasedKey s = None"
  shows "\<exists>s'. Cycles rnds s = Inr (None, s') \<and> pc s' = pc s \<and> vx s' = vx s \<and>
           i s' = i s \<and> lastReleasedKey s' = None \<and> fetch s' = Some w"
  using assms
proof (induction rnds arbitrary: s)
  case Nil
  then show ?case by (simp add: ok_def)
next
  case (Cons rnd rnds)
  let ?s1 = "timers (s\<lparr>opcode := w\<rparr>)"
  have step: "Cycle rnd s = Inr (None, ?s1)"
    using Cons.prems by (rule key_wait_blocked)
  have f: "fetch ?s1 = Some w"
    using Cons.prems(1) fetch_cong[of "s\<lparr>opcode := w\<rparr>" s] by (simp add: fetch_timers)
  have k: "lastReleasedKey ?s1 = None"
    using Cons.prems(4) by (simp add: timers_frame)
  from Cons.IH[OF f Cons.prems(2,3) k] obtain s' where
    "Cycles rnds ?s1 = Inr (None, s')" "pc s' = pc ?s1" "vx s' = vx ?s1" "i s' = i ?s1"
    "lastReleasedKey s' = None" "fetch s' = Some w"
    by blast
  then show ?case using step by (simp add: timers_frame)
qed

text \<open>
  C5. Executing \<open>Fx0A\<close> while no key release is pending leaves the program counter and
  the registers (\<open>V0\<close> to \<open>VF\<close> and \<open>I\<close>) as they were, the marker absent and the same
  instruction to be fetched next, so any number of further cycles retries it. Once a
  released key is recorded, executing \<open>Fx0A\<close> stores its code into \<open>Vx\<close>, clears the
  marker and advances the program counter by 2.
\<close>

theorem key_wait_Fx0A:
  assumes "well_formed s" and "fetch s = Some w"
    and "drop_bit 12 w = 0xF" and "w AND 0x00ff = 0x000a"
  shows "(lastReleasedKey s = None \<longrightarrow>
            (\<exists>s'. Cycle rnd s = Inr (None, s') \<and> pc s' = pc s \<and> vx s' = vx s \<and>
                  i s' = i s \<and> lastReleasedKey s' = None \<and> fetch s' = Some w) \<and>
            (\<forall>rnds. \<exists>s'. Cycles rnds s = Inr (None, s') \<and> pc s' = pc s \<and> vx s' = vx s \<and>
                  i s' = i s \<and> lastReleasedKey s' = None \<and> fetch s' = Some w)) \<and>
         (\<forall>k. lastReleasedKey s = Some k \<longrightarrow>
            (\<exists>s'. Cycle rnd s = Inr (None, s') \<and>
                  vx s' = (vx s)[unat (x_nib w) := k] \<and> reg s' (x_nib w) = k \<and>
                  lastReleasedKey s' = None \<and> pc s' = pc s + 2))"
proof (intro conjI impI allI)
  assume none: "lastReleasedKey s = None"
  show "\<exists>s'. Cycle rnd s = Inr (None, s') \<and> pc s' = pc s \<and> vx s' = vx s \<and>
                  i s' = i s \<and> lastReleasedKey s' = None \<and> fetch s' = Some w"
    using key_wait_blocked_again[OF assms(2-4) none, of "[rnd]"]
    by (auto simp add: ok_def split: sum.splits option.splits prod.splits)
next
  fix rnds
  assume none: "lastReleasedKey s = None"
  show "\<exists>s'. Cycles rnds s = Inr (None, s') \<and> pc s' = pc s \<and> vx s' = vx s \<and>
                  i s' = i s \<and> lastReleasedKey s' = None \<and> fetch s' = Some w"
    by (rule key_wait_blocked_again[OF assms(2-4) none])
next
  fix k
  assume some: "lastReleasedKey s = Some k"
  have len: "length (vx s) = 16" using assms(1) by (simp add: well_formed_def)
  show "\<exists>s'. Cycle rnd s = Inr (None, s') \<and>
                  vx s' = (vx s)[unat (x_nib w) := k] \<and> reg s' (x_nib w) = k \<and>
                  lastReleasedKey s' = None \<and> pc s' = pc s + 2"
    using assms(2-4) some len x_nib_lt[of w]
    by (simp add: Cycle_fetch dispatch_def opHandlerF_def Let_def ok_def timers_frame
        advance_def set_reg_def reg_def)
qed

theorem key_wait_Fx0A_witness:
  "well_formed (machine [0xF3, 0x0A] (replicate 16 0)) \<and>
   fetch (machine [0xF3, 0x0A] (replicate 16 0)) = Some 0xF30A \<and>
   lastReleasedKey (machine [0xF3, 0x0A] (replicate 16 0)) = None \<and>
   (\<exists>s'. Cycles [0, 0, 0] (machine [0xF3, 0x0A] (replicate 16 0)) = Inr (None, s') \<and>
         pc s' = 0x200) \<and>
   lastReleasedKey ((machine [0xF3, 0x0A] (replicate 16 0))\<lparr>lastReleasedKey := Some 7\<rparr>) = Some 7 \<and>
   (\<exists>s'. Cycle 0 ((machine [0xF3, 0x0A] (replicate 16 0))\<lparr>lastReleasedKey := Some 7\<rparr>) = Inr (None, s') \<and>
         reg s' 3 = 7 \<and> lastReleasedKey s' = None \<and> pc s' = 0x202)"
proof -
  let ?m = "machine [0xF3, 0x0A] (replicate 16 0)"
  let ?k = "?m\<lparr>lastReleasedKey := Some 7\<rparr>"
  have wf: "well_formed ?m" by (simp add: well_formed_machine)
  have f: "fetch ?m = Some 0xF30A" by (simp add: fetch_machine)
  have wfk: "well_formed ?k" using wf by (simp add: well_formed_def)
  have fk: "fetch ?k = Some 0xF30A" using f fetch_cong[of ?k ?m] by simp
  have x: "x_nib 0xF30A = 3" by (simp add: x_nib_def)
  have d: "drop_bit 12 (0xF30A :: u16) = 0xF" and a: "(0xF30A :: u16) AND 0x00ff = 0x000a"
    by simp_all
  have none: "lastReleasedKey ?m = None" by (simp add: machine_fields)
  from key_wait_Fx0A[OF wf f d a, of 0] none
  have "\<forall>rnds. \<exists>s'. Cycles rnds ?m = Inr (None, s') \<and> pc s' = pc ?m \<and> vx s' = vx ?m \<and>
          i s' = i ?m \<and> lastReleasedKey s' = None \<and> fetch s' = Some 0xF30A"
    by blast
  then obtain s' where "Cycles [0, 0, 0] ?m = Inr (None, s')" "pc s' = pc ?m"
    by blast
  then have blocked: "\<exists>s'. Cycles [0, 0, 0] ?m = Inr (None, s') \<and> pc s' = 0x200"
    by (intro exI[of _ s']) (simp add: machine_fields del: Cycles.simps)
  have released: "\<exists>s'. Cycle 0 ?k = Inr (None, s') \<and>
         reg s' 3 = 7 \<and> lastReleasedKey s' = None \<and> pc s' = 0x202"
    using key_wait_Fx0A[OF wfk fk d a, of 0] by (auto simp add: machine_fields x)
  show ?thesis using wf f blocked released by (simp add: machine_fields del: Cycles.simps)
qed


section \<open>Unknown opcodes\<close>

text \<open>
  In the families 0, 5, 8 and F an unknown encoding is reported before anything but the
  opcode latch is written. In family E the program counter has been advanced by then.
\<close>

lemma unknown_opcode_keeps_state:
  assumes "fetch s = Some w"
    and "drop_bit 12 w = 0 \<and> w AND 0x00ff \<notin> {0xe0, 0xee} \<or>
         drop_bit 12 w = 5 \<and> w AND 0x000f \<noteq> 0 \<or>
         drop_bit 12 w = 8 \<and> w AND 0x000f \<notin> {0, 1, 2, 3, 4, 5, 6, 7, 0xE} \<or>
         drop_bit 12 w = 0xF \<and>
           w AND 0x00ff \<notin> {0x07, 0x0a, 0x15, 0x18, 0x1e, 0x29, 0x33, 0x55, 0x65}"
  shows "Cycle rnd s = Inr (Some ErrUnknownOpcode, s\<lparr>opcode := w\<rparr>)"
  using assms
  by (auto simp add: Cycle_fetch dispatch_def opHandler0_def opHandler5_def opHandler8_def
      opHandlerF_def Let_def unknown_def)


text \<open>
  C1. The instruction word \<open>E000\<close> matches no opcode of family E. Cycle reports the
  unknown opcode, and the program counter of the machine is \<open>0x202\<close> afterwards, while it
  was \<open>0x200\<close> before: the state is not left unchanged.
\<close>

theorem unknown_opcode_E000_advances_pc:
  "Cycle 0 (machine [0xE0, 0x00] (replicate 16 0))
     = Inr (Some ErrUnknownOpcode,
            (machine [0xE0, 0x00] (replicate 16 0))\<lparr>opcode := 0xE000, pc := 0x202\<rparr>) \<and>
   pc (machine [0xE0, 0x00] (replicate 16 0)) = 0x200"
  by (simp add: Cycle_def fetch_machine dispatch_def opHandlerE_def Let_def unknown_def
      advance_def machine_fields)


section \<open>What every handler keeps\<close>

lemma kept_refl: "kept s s"
  by (simp add: kept_def)

lemma kept_trans: "kept s s1 \<Longrightarrow> kept s1 s2 \<Longrightarrow> kept s s2"
  by (simp add: kept_def)

lemma for_each_kept:
  assumes "\<And>k s s'. body k s = Inr s' \<Longrightarrow> kept s s'"
    and "for_each ks body s = Inr s'"
  shows "kept s s'"
  using assms(2)
proof (induction ks arbitrary: s)
  case Nil
  then show ?case by (simp add: kept_refl)
next
  case (Cons k ks)
  then obtain s1 where b: "body k s = Inr s1" and r: "for_each ks body s1 = Inr s'"
    by (auto split: sum.splits)
  from assms(1)[OF b] Cons.IH[OF r] show ?case by (rule kept_trans)
qed

lemma for_range_kept:
  assumes "\<And>k s s'. body k s = Inr s' \<Longrightarrow> kept s s'"
    and "for_range n body s = Inr s'"
  shows "kept s s'"
  using for_each_kept[of body "[0..<n]" s s'] assms by (simp add: for_range_def)

lemma kept_simple:
  "kept s (advance s)" "kept s (set_reg r v s)" "kept s (s\<lparr>pc := a\<rparr>)" "kept s (s\<lparr>opcode := w\<rparr>)"
  "kept s (s\<lparr>i := a\<rparr>)" "kept s (s\<lparr>dt := b\<rparr>)" "kept s (s\<lparr>st := b\<rparr>)" "kept s (s\<lparr>sp := a\<rparr>)"
  "kept s (s\<lparr>lastReleasedKey := k\<rparr>)"
  "kept s (s\<lparr>stack := (stack s)[n := a]\<rparr>)"
  "kept s (s\<lparr>memory := (memory s)[n := b]\<rparr>)"
  "kept s (s\<lparr>vx := (vx s)[n := b]\<rparr>)"
  by (simp_all add: kept_def driver_fields_def well_formed_def advance_def set_reg_def)

lemma kept_clear: "kept s (s\<lparr>display := map (map (\<lambda>_. 0)) (display s)\<rparr>)"
  by (simp add: kept_def driver_fields_def well_formed_def list_all_length)

lemma kept_pixel:
  "kept s (s\<lparr>display := (display s)[r := (display s ! r)[c := v]]\<rparr>)"
  by (cases "r < length (display s)")
     (auto simp add: kept_def driver_fields_def well_formed_def list_all_length nth_list_update)

lemma draw_pixel_kept: "draw_pixel sx sy y x s = Inr s' \<Longrightarrow> kept s s'"
  by (auto simp add: draw_pixel_def Let_def split: if_splits
      intro: kept_pixel kept_trans[OF kept_pixel kept_simple(2)])

lemma store_kept: "store a v s = Inr s' \<Longrightarrow> kept s s'"
  by (auto simp add: store_def split: if_splits intro: kept_simple)

lemma store_reg_kept: "store_reg k s = Inr s' \<Longrightarrow> kept s s'"
  by (simp add: store_reg_def store_kept)

lemma load_reg_kept: "load_reg k s = Inr s' \<Longrightarrow> kept s s'"
  by (auto simp add: load_reg_def Let_def split: if_splits intro: kept_simple)

lemma bcd_kept: "bcd v s = Inr s' \<Longrightarrow> kept s s'"
  by (auto simp add: bcd_def split: sum.splits dest!: store_kept intro: kept_trans)

lemma kept_rw:
  "kept s (advance t) = kept s t" "kept s (set_reg r v t) = kept s t"
  "kept s (t\<lparr>pc := a\<rparr>) = kept s t" "kept s (t\<lparr>opcode := w\<rparr>) = kept s t"
  "kept s (t\<lparr>i := a\<rparr>) = kept s t" "kept s (t\<lparr>dt := b\<rparr>) = kept s t"
  "kept s (t\<lparr>st := b\<rparr>) = kept s t" "kept s (t\<lparr>sp := a\<rparr>) = kept s t"
  "kept s (t\<lparr>lastReleasedKey := k\<rparr>) = kept s t"
  "kept s (t\<lparr>stack := (stack t)[n := a]\<rparr>) = kept s t"
  "kept s (t\<lparr>memory := (memory t)[n := b]\<rparr>) = kept s t"
  "kept s (t\<lparr>vx := (vx t)[n := b]\<rparr>) = kept s t"
  "kept s (t\<lparr>display := map (map (\<lambda>_. 0)) (display t)\<rparr>) = kept s t"
  by (simp_all add: kept_def driver_fields_def well_formed_def advance_def set_reg_def
      list_all_length)

lemma opHandler0_kept: "opHandler0 s = Inr (e, s') \<Longrightarrow> kept s s'"
  by (auto simp add: opHandler0_def ok_def unknown_def panic_def Let_def kept_rw kept_refl
      split: if_splits)

lemma opHandler1_kept: "opHandler1 s = Inr (e, s') \<Longrightarrow> kept s s'"
  by (auto simp add: opHandler1_def ok_def kept_rw kept_refl)

lemma opHandler2_kept: "opHandler2 s = Inr (e, s') \<Longrightarrow> kept s s'"
  by (auto simp add: opHandler2_def ok_def panic_def Let_def kept_rw kept_refl
      split: if_splits)

lemma opHandler3_kept: "opHandler3 s = Inr (e, s') \<Longrightarrow> kept s s'"
  by (auto simp add: opHandler3_def ok_def Let_def kept_rw kept_refl split: if_splits)

lemma opHandler4_kept: "opHandler4 s = Inr (e, s') \<Longrightarrow> kept s s'"
  by (auto simp add: opHandler4_def ok_def Let_def kept_rw kept_refl split: if_splits)

lemma opHandler5_kept: "opHandler5 s = Inr (e, s') \<Longrightarrow> kept s s'"
  by (auto simp add: opHandler5_def ok_def unknown_def Let_def kept_rw kept_refl
      split: if_splits)

lemma opHandler6_kept: "opHandler6 s = Inr (e, s') \<Longrightarrow> kept s s'"
  by (auto simp add: opHandler6_def ok_def kept_rw kept_refl)

lemma opHandler7_kept: "opHandler7 s = Inr (e, s') \<Longrightarrow> kept s s'"
  by (auto simp add: opHandler7_def ok_def kept_rw kept_refl)


lemma opHandler8_kept: "opHandler8 s = Inr (e, s') \<Longrightarrow> kept s s'"
  unfolding opHandler8_def Let_def ok_def unknown_def
  by (simp add: kept_rw kept_refl split: if_splits) (auto simp add: kept_rw kept_refl)

lemma opHandler9_kept: "opHandler9 s = Inr (e, s') \<Longrightarrow> kept s s'"
  by (auto simp add: opHandler9_def ok_def Let_def kept_rw kept_refl split: if_splits)

lemma opHandlerA_kept: "opHandlerA s = Inr (e, s') \<Longrightarrow> kept s s'"
  by (auto simp add: opHandlerA_def ok_def kept_rw kept_refl)

lemma opHandlerB_kept: "opHandlerB s = Inr (e, s') \<Longrightarrow> kept s s'"
  by (auto simp add: opHandlerB_def ok_def kept_rw kept_refl)

lemma opHandlerC_kept: "opHandlerC rnd s = Inr (e, s') \<Longrightarrow> kept s s'"
  by (auto simp add: opHandlerC_def ok_def kept_rw kept_refl)

lemma opHandlerE_kept: "opHandlerE s = Inr (e, s') \<Longrightarrow> kept s s'"
  by (auto simp add: opHandlerE_def ok_def unknown_def Let_def kept_rw kept_refl
      split: if_splits)


lemma opHandlerD_kept:
  assumes "opHandlerD s = Inr (e, s')"
  shows "kept s s'"
proof -
  let ?sx = "reg s (x_nib (opcode s))" and ?sy = "reg s (y_nib (opcode s))"
  from assms obtain s2 where
    loop: "for_range (unat (n_nib (opcode s)))
             (\<lambda>y. for_range 8 (\<lambda>x. draw_pixel ?sx ?sy y x)) (set_reg VF 0 s) = Inr s2"
    and s': "s' = advance s2"
    by (auto simp add: opHandlerD_def Let_def ok_def split: sum.splits)
  have row: "\<And>y t t'. for_range 8 (\<lambda>x. draw_pixel ?sx ?sy y x) t = Inr t' \<Longrightarrow> kept t t'"
    using draw_pixel_kept by (rule for_range_kept)
  have "kept (set_reg VF 0 s) s2"
    using row loop by (rule for_range_kept)
  then have "kept s s2"
    using kept_simple(2) kept_trans by blast
  then show ?thesis
    unfolding s' by (simp add: kept_rw)
qed

lemma store_regs_kept:
  assumes "for_range n store_reg s = Inr s'"
  shows "kept s s'"
proof (rule for_range_kept[OF _ assms])
  fix k t t'
  assume "store_reg k t = Inr t'"
  then show "kept t t'" by (rule store_reg_kept)
qed

lemma load_regs_kept:
  assumes "for_range n load_reg s = Inr s'"
  shows "kept s s'"
proof (rule for_range_kept[OF _ assms])
  fix k t t'
  assume "load_reg k t = Inr t'"
  then show "kept t t'" by (rule load_reg_kept)
qed

lemma opHandlerF_loops:
  assumes "opHandlerF s = Inr (e, s')"
    and "opcode s AND 0x00ff = 0x33 \<or> opcode s AND 0x00ff = 0x55 \<or> opcode s AND 0x00ff = 0x65"
  shows "\<exists>s1. s' = advance s1 \<and>
     (bcd (reg s (x_nib (opcode s))) s = Inr s1 \<or>
      for_range (unat (x_nib (opcode s) + 1)) store_reg s = Inr s1 \<or>
      for_range (unat (x_nib (opcode s) + 1)) load_reg s = Inr s1)"
  using assms
  by (auto simp add: opHandlerF_def Let_def ok_def split: sum.splits)

lemma opHandlerF_kept:
  assumes "opHandlerF s = Inr (e, s')"
  shows "kept s s'"
proof (cases "opcode s AND 0x00ff = 0x33 \<or> opcode s AND 0x00ff = 0x55 \<or> opcode s AND 0x00ff = 0x65")
  case True
  from opHandlerF_loops[OF assms True] obtain s1 where s': "s' = advance s1"
    and r: "bcd (reg s (x_nib (opcode s))) s = Inr s1 \<or>
      for_range (unat (x_nib (opcode s) + 1)) store_reg s = Inr s1 \<or>
      for_range (unat (x_nib (opcode s) + 1)) load_reg s = Inr s1"
    by blast
  have "kept s s1"
    using r bcd_kept store_regs_kept load_regs_kept by blast
  then show ?thesis unfolding s' by (simp add: kept_rw)
next
  case False
  with assms show ?thesis
    unfolding opHandlerF_def Let_def ok_def unknown_def
    by (simp add: kept_rw kept_refl split: if_splits option.splits)
       (auto simp add: kept_rw kept_refl)
qed


lemma dispatch_kept:
  "\<forall>h \<in> set (dispatch rnd). \<forall>s e s'. h s = Inr (e, s') \<longrightarrow> kept s s'"
  unfolding dispatch_def
  by (simp add: opHandler0_kept opHandler1_kept opHandler2_kept opHandler3_kept
        opHandler4_kept opHandler5_kept opHandler6_kept opHandler7_kept opHandler8_kept
        opHandler9_kept opHandlerA_kept opHandlerB_kept opHandlerC_kept opHandlerD_kept
        opHandlerE_kept opHandlerF_kept)

lemma handler_kept:
  assumes "(dispatch rnd ! unat (drop_bit 12 (w :: u16))) s = Inr (e, s')"
  shows "kept s s'"
proof -
  have "length (dispatch rnd) = 16" by (simp add: dispatch_def)
  then have "dispatch rnd ! unat (drop_bit 12 w) \<in> set (dispatch rnd)"
    using top_lt[of w] by (intro nth_mem) simp
  with dispatch_kept assms show ?thesis by blast
qed

text \<open>What a returning \<open>Cycle\<close> is made of.\<close>

lemma Cycle_Inr:
  assumes "Cycle rnd s = Inr (e, s')"
  obtains w s2 where "fetch s = Some w"
    and "(dispatch rnd ! unat (drop_bit 12 w)) (s\<lparr>opcode := w\<rparr>) = Inr (e, s2)"
    and "kept s s2"
    and "e = None \<longrightarrow> s' = timers s2" and "e \<noteq> None \<longrightarrow> s' = s2"
proof -
  from assms obtain w where f: "fetch s = Some w"
    by (auto simp add: Cycle_def panic_def split: option.splits)
  from assms f obtain s2 where
    h: "(dispatch rnd ! unat (drop_bit 12 w)) (s\<lparr>opcode := w\<rparr>) = Inr (e, s2)"
    and r: "e = None \<longrightarrow> s' = timers s2" "e \<noteq> None \<longrightarrow> s' = s2"
    by (auto simp add: Cycle_fetch ok_def split: sum.splits option.splits prod.splits)
  from handler_kept[OF h] have k: "kept s s2"
    by (simp add: kept_def driver_fields_def well_formed_def)
  show ?thesis using f h k r by (rule that)
qed

lemma Cycle_well_formed:
  assumes "Cycle rnd s = Inr (e, s')" and "well_formed s"
  shows "well_formed s'"
proof -
  from assms(1) obtain s2 where "kept s s2" and "s' = timers s2 \<or> s' = s2"
    by (rule Cycle_Inr) (cases e; simp)
  with assms(2) show ?thesis by (auto simp add: kept_def well_formed_timers)
qed


section \<open>Reachable states\<close>

lemma reachable_well_formed: "reachable s \<Longrightarrow> well_formed s"
proof (induction rule: reachable.induct)
  case new
  show ?case
    by (simp add: well_formed_def NewInterpreter_def DisplayHeight_def DisplayWidth_def
        list_all_length)
next
  case (load s prog)
  then show ?case
    using length_memory_Load[of prog s] by (simp add: well_formed_def) (simp add: Load_def Let_def)
next
  case (key s k pressed s')
  then show ?case
    by (auto simp add: well_formed_def SetKeyState_def Let_def split: if_splits)
next
  case (cycle s rnd err s')
  then show ?case by (blast intro: Cycle_well_formed)
qed

lemma machine_reachable: "reachable (machine prog (replicate 16 0))"
proof -
  have "machine prog (replicate 16 0) = snd (Load prog NewInterpreter)"
    by (simp add: machine_def Load_def Let_def NewInterpreter_def)
  then show ?thesis by (simp add: reachable.new reachable.load)
qed

section \<open>The sound callback\<close>
















section \<open>Bounds of the stack and of memory\<close>

lemma fault_eq: "(e :: fault) = IndexOutOfRange"
  by (cases e) simp

lemma unat_add_small: "unat (a :: u16) + k < 65536 \<Longrightarrow> unat (a + of_nat k) = unat a + k"
  by (simp add: unat_word_ariths unat_of_nat)

lemma for_each_returns:
  assumes "\<And>k t. k \<in> set ks \<Longrightarrow> Q t \<Longrightarrow> \<exists>t'. body k t = Inr t' \<and> Q t'"
    and "Q s"
  shows "\<exists>s'. for_each ks body s = Inr s' \<and> Q s'"
  using assms
proof (induction ks arbitrary: s)
  case Nil
  then show ?case by simp
next
  case (Cons k ks)
  from Cons.prems(1)[of k s] Cons.prems(2) obtain t where t: "body k s = Inr t" "Q t"
    by auto
  have "\<exists>s'. for_each ks body t = Inr s' \<and> Q s'"
    using Cons.prems(1) t(2) by (intro Cons.IH) auto
  with t show ?case by simp
qed

lemma for_each_faults:
  assumes "k \<in> set ks"
    and "\<And>t. Q t \<Longrightarrow> \<exists>e. body k t = Inl e"
    and "\<And>j t t'. Q t \<Longrightarrow> body j t = Inr t' \<Longrightarrow> Q t'"
    and "Q s"
  shows "for_each ks body s = Inl IndexOutOfRange"
  using assms(1,4)
proof (induction ks arbitrary: s)
  case Nil
  then show ?case by simp
next
  case (Cons j ks)
  show ?case
  proof (cases "body j s")
    case (Inl e)
    then show ?thesis using fault_eq[of e] by simp
  next
    case (Inr t)
    with assms(2)[OF Cons.prems(2)] have "j \<noteq> k" by auto
    with Cons.prems(1) have "k \<in> set ks" by simp
    moreover have "Q t" using assms(3)[OF Cons.prems(2) Inr] .
    ultimately have "for_each ks body t = Inl IndexOutOfRange" by (rule Cons.IH)
    with Inr show ?thesis by simp
  qed
qed

lemma store_reg_ok:
  "mem_inv a t \<Longrightarrow> unat (a + of_nat k) < 4096 \<Longrightarrow> \<exists>t'. store_reg k t = Inr t' \<and> mem_inv a t'"
  by (simp add: store_reg_def store_def mem_inv_def well_formed_def)

lemma store_reg_fault:
  "mem_inv a t \<Longrightarrow> \<not> unat (a + of_nat k) < 4096 \<Longrightarrow> \<exists>e. store_reg k t = Inl e"
  by (simp add: store_reg_def store_def mem_inv_def well_formed_def)

lemma store_reg_inv: "mem_inv a t \<Longrightarrow> store_reg k t = Inr t' \<Longrightarrow> mem_inv a t'"
  by (auto simp add: store_reg_def store_def mem_inv_def well_formed_def split: if_splits)

lemma load_reg_ok:
  "mem_inv a t \<Longrightarrow> unat (a + of_nat k) < 4096 \<Longrightarrow> \<exists>t'. load_reg k t = Inr t' \<and> mem_inv a t'"
  by (simp add: load_reg_def Let_def mem_inv_def well_formed_def)

lemma load_reg_fault:
  "mem_inv a t \<Longrightarrow> \<not> unat (a + of_nat k) < 4096 \<Longrightarrow> \<exists>e. load_reg k t = Inl e"
  by (simp add: load_reg_def Let_def mem_inv_def well_formed_def)

lemma load_reg_inv: "mem_inv a t \<Longrightarrow> load_reg k t = Inr t' \<Longrightarrow> mem_inv a t'"
  by (auto simp add: load_reg_def Let_def mem_inv_def well_formed_def split: if_splits)

text \<open>The addresses \<open>I, ..., I + x\<close> all lie in memory iff the last one does, without wrap-around.\<close>

lemma span_in_memory:
  assumes "x < 16"
  shows "(\<forall>k\<le>x. unat ((a :: u16) + of_nat k) < 4096) \<longleftrightarrow> unat a + x < 4096"
proof
  assume all: "\<forall>k\<le>x. unat (a + of_nat k) < 4096"
  from all have "unat (a + of_nat 0) < 4096" by blast
  then have a: "unat a < 4096" by simp
  with assms have "unat (a + of_nat x) = unat a + x" by (intro unat_add_small) simp
  moreover from all have "unat (a + of_nat x) < 4096" by blast
  ultimately show "unat a + x < 4096" by simp
next
  assume b: "unat a + x < 4096"
  show "\<forall>k\<le>x. unat (a + of_nat k) < 4096"
  proof (intro allI impI)
    fix k assume k: "k \<le> x"
    with b have "unat (a + of_nat k) = unat a + k" by (intro unat_add_small) simp
    with b k show "unat (a + of_nat k) < 4096" by simp
  qed
qed

lemma store_regs_bounds:
  assumes "well_formed s" and "x < 16"
  shows "if unat (i s) + x < 4096
         then \<exists>s'. for_range (Suc x) store_reg s = Inr s' \<and> well_formed s'
         else for_range (Suc x) store_reg s = Inl IndexOutOfRange"
proof (cases "unat (i s) + x < 4096")
  case True
  then have all: "\<forall>k\<le>x. unat (i s + of_nat k) < 4096"
    using span_in_memory[OF assms(2), of "i s"] by simp
  have "\<exists>s'. for_each [0..<Suc x] store_reg s = Inr s' \<and> mem_inv (i s) s'"
  proof (rule for_each_returns)
    fix k t
    assume "k \<in> set [0..<Suc x]" and "mem_inv (i s) t"
    with all show "\<exists>t'. store_reg k t = Inr t' \<and> mem_inv (i s) t'"
      by (intro store_reg_ok) auto
  next
    show "mem_inv (i s) s" using assms(1) by (simp add: mem_inv_def)
  qed
  with True show ?thesis by (auto simp add: for_range_def mem_inv_def)
next
  case False
  then obtain k where k: "k \<le> x" "\<not> unat (i s + of_nat k) < 4096"
    using span_in_memory[OF assms(2), of "i s"] by blast
  from k(1) have kin: "k \<in> set [0..<Suc x]" by auto
  have "for_each [0..<Suc x] store_reg s = Inl IndexOutOfRange"
  proof (rule for_each_faults[where Q="mem_inv (i s)", OF kin])
    show "\<And>t. mem_inv (i s) t \<Longrightarrow> \<exists>e. store_reg k t = Inl e"
      using k(2) by (blast intro: store_reg_fault)
    show "\<And>j t t'. mem_inv (i s) t \<Longrightarrow> store_reg j t = Inr t' \<Longrightarrow> mem_inv (i s) t'"
      by (rule store_reg_inv)
    show "mem_inv (i s) s" using assms(1) by (simp add: mem_inv_def)
  qed
  with False show ?thesis by (simp add: for_range_def)
qed

lemma load_regs_bounds:
  assumes "well_formed s" and "x < 16"
  shows "if unat (i s) + x < 4096
         then \<exists>s'. for_range (Suc x) load_reg s = Inr s' \<and> well_formed s'
         else for_range (Suc x) load_reg s = Inl IndexOutOfRange"
proof (cases "unat (i s) + x < 4096")
  case True
  then have all: "\<forall>k\<le>x. unat (i s + of_nat k) < 4096"
    using span_in_memory[OF assms(2), of "i s"] by simp
  have "\<exists>s'. for_each [0..<Suc x] load_reg s = Inr s' \<and> mem_inv (i s) s'"
  proof (rule for_each_returns)
    fix k t
    assume "k \<in> set [0..<Suc x]" and "mem_inv (i s) t"
    with all show "\<exists>t'. load_reg k t = Inr t' \<and> mem_inv (i s) t'"
      by (intro load_reg_ok) auto
  next
    show "mem_inv (i s) s" using assms(1) by (simp add: mem_inv_def)
  qed
  with True show ?thesis by (auto simp add: for_range_def mem_inv_def)
next
  case False
  then obtain k where k: "k \<le> x" "\<not> unat (i s + of_nat k) < 4096"
    using span_in_memory[OF assms(2), of "i s"] by blast
  from k(1) have kin: "k \<in> set [0..<Suc x]" by auto
  have "for_each [0..<Suc x] load_reg s = Inl IndexOutOfRange"
  proof (rule for_each_faults[where Q="mem_inv (i s)", OF kin])
    show "\<And>t. mem_inv (i s) t \<Longrightarrow> \<exists>e. load_reg k t = Inl e"
      using k(2) by (blast intro: load_reg_fault)
    show "\<And>j t t'. mem_inv (i s) t \<Longrightarrow> load_reg j t = Inr t' \<Longrightarrow> mem_inv (i s) t'"
      by (rule load_reg_inv)
    show "mem_inv (i s) s" using assms(1) by (simp add: mem_inv_def)
  qed
  with False show ?thesis by (simp add: for_range_def)
qed


lemma bcd_bounds:
  assumes "well_formed s"
  shows "if unat (i s) + 2 < 4096
         then \<exists>s'. bcd v s = Inr s' \<and> well_formed s'
         else bcd v s = Inl IndexOutOfRange"
proof (cases "unat (i s) < 4096")
  case True
  then have a: "unat (i s + 1) = unat (i s) + 1" "unat (i s + 2) = unat (i s) + 2"
    using unat_add_small[of "i s" 1] unat_add_small[of "i s" 2] by simp_all
  show ?thesis
    using assms True a
    by (simp add: bcd_def store_def well_formed_def)
next
  case False
  then show ?thesis
    using assms by (simp add: bcd_def store_def well_formed_def)
qed

lemma unat_minus_1_u16: "unat (- 1 :: u16) = 65535"
  by (simp add: unsigned_minus_1_eq_mask mask_eq_exp_minus_1)

lemma call_bounds:
  assumes "well_formed s" and "fetch s = Some w" and "drop_bit 12 w = 2"
  shows "if unat (sp s) < 16
         then \<exists>s'. Cycle rnd s = Inr (None, s') \<and> well_formed s'
         else Cycle rnd s = Inl IndexOutOfRange"
  using assms
  by (simp add: Cycle_fetch dispatch_def opHandler2_def Let_def ok_def panic_def
      well_formed_timers) (simp add: well_formed_def)

lemma ret_bounds:
  assumes "well_formed s" and "fetch s = Some w"
    and "drop_bit 12 w = 0" and "w AND 0x00ff = 0x00ee"
  shows "if 1 \<le> unat (sp s) \<and> unat (sp s) \<le> 16
         then \<exists>s'. Cycle rnd s = Inr (None, s') \<and> well_formed s'
         else Cycle rnd s = Inl IndexOutOfRange"
proof -
  have dec: "unat (sp s - 1) < 16 \<longleftrightarrow> 1 \<le> unat (sp s) \<and> unat (sp s) \<le> 16"
  proof (cases "sp s = 0")
    case True
    then show ?thesis by (simp add: unat_minus_1_u16)
  next
    case False
    then have "unat (sp s - 1) = unat (sp s) - 1" by (rule unat_minus_one)
    moreover from False have "1 \<le> unat (sp s)" by (simp add: unat_gt_0 Suc_le_eq)
    ultimately show ?thesis by auto
  qed
  have len: "length (stack s) = 16" using assms(1) by (simp add: well_formed_def)
  show ?thesis
  proof (cases "unat (sp s - 1) < 16")
    case True
    then have "Cycle rnd s = Inr (None, timers (advance
        (s\<lparr>opcode := w, sp := sp s - 1, pc := stack s ! unat (sp s - 1)\<rparr>)))"
      using assms(2-4) len
      by (simp add: Cycle_fetch dispatch_def opHandler0_def Let_def ok_def)
    moreover have "well_formed (timers (advance
        (s\<lparr>opcode := w, sp := sp s - 1, pc := stack s ! unat (sp s - 1)\<rparr>)))"
      using assms(1) by (simp add: well_formed_timers) (simp add: well_formed_def advance_def)
    ultimately show ?thesis using True dec by simp
  next
    case False
    then have "Cycle rnd s = Inl IndexOutOfRange"
      using assms(2-4) len
      by (simp add: Cycle_fetch dispatch_def opHandler0_def Let_def panic_def)
    then show ?thesis using False dec by simp
  qed
qed

lemma unat_x_nib_Suc: "unat (x_nib w + 1) = Suc (unat (x_nib w))"
  using x_nib_lt[of w] by (simp add: unat_word_ariths)

lemma well_formed_upd:
  "well_formed (advance t) = well_formed t" "well_formed (t\<lparr>opcode := w\<rparr>) = well_formed t"
  by (simp_all add: well_formed_def advance_def)

lemma i_opcode_upd: "i (t\<lparr>opcode := w\<rparr>) = i t"
  by simp

lemma bcd_cycle_bounds:
  assumes "well_formed s" and "fetch s = Some w"
    and "drop_bit 12 w = 0xF" and "w AND 0x00ff = 0x0033"
  shows "if unat (i s) + 2 < 4096
         then \<exists>s'. Cycle rnd s = Inr (None, s') \<and> well_formed s'
         else Cycle rnd s = Inl IndexOutOfRange"
proof -
  let ?t = "s\<lparr>opcode := w\<rparr>"
  have c: "Cycle rnd s = (case bcd (reg ?t (x_nib w)) ?t of
       Inl e \<Rightarrow> Inl e | Inr s1 \<Rightarrow> Inr (None, timers (advance s1)))"
    using assms(2-4)
    by (simp add: Cycle_fetch dispatch_def opHandlerF_def Let_def ok_def split: sum.splits)
  have wf: "well_formed ?t" using assms(1) by (simp add: well_formed_upd)
  from bcd_bounds[OF wf, of "reg ?t (x_nib w)"] show ?thesis
    unfolding c by (auto simp add: well_formed_timers well_formed_upd split: if_splits)
qed

lemma store_cycle_bounds:
  assumes "well_formed s" and "fetch s = Some w"
    and "drop_bit 12 w = 0xF" and "w AND 0x00ff = 0x0055"
  shows "if unat (i s) + unat (x_nib w) < 4096
         then \<exists>s'. Cycle rnd s = Inr (None, s') \<and> well_formed s'
         else Cycle rnd s = Inl IndexOutOfRange"
proof -
  let ?t = "s\<lparr>opcode := w\<rparr>"
  have c: "Cycle rnd s = (case for_range (Suc (unat (x_nib w))) store_reg ?t of
       Inl e \<Rightarrow> Inl e | Inr s1 \<Rightarrow> Inr (None, timers (advance s1)))"
    using assms(2-4)
    by (simp add: Cycle_fetch dispatch_def opHandlerF_def Let_def ok_def unat_x_nib_Suc
        split: sum.splits)
  have wf: "well_formed ?t" using assms(1) by (simp add: well_formed_upd)
  from store_regs_bounds[OF wf x_nib_lt[of w]] show ?thesis
    unfolding c by (auto simp add: well_formed_timers well_formed_upd split: if_splits)
qed

lemma load_cycle_bounds:
  assumes "well_formed s" and "fetch s = Some w"
    and "drop_bit 12 w = 0xF" and "w AND 0x00ff = 0x0065"
  shows "if unat (i s) + unat (x_nib w) < 4096
         then \<exists>s'. Cycle rnd s = Inr (None, s') \<and> well_formed s'
         else Cycle rnd s = Inl IndexOutOfRange"
proof -
  let ?t = "s\<lparr>opcode := w\<rparr>"
  have c: "Cycle rnd s = (case for_range (Suc (unat (x_nib w))) load_reg ?t of
       Inl e \<Rightarrow> Inl e | Inr s1 \<Rightarrow> Inr (None, timers (advance s1)))"
    using assms(2-4)
    by (simp add: Cycle_fetch dispatch_def opHandlerF_def Let_def ok_def unat_x_nib_Suc
        split: sum.splits)
  have wf: "well_formed ?t" using assms(1) by (simp add: well_formed_upd)
  from load_regs_bounds[OF wf x_nib_lt[of w]] show ?thesis
    unfolding c by (auto simp add: well_formed_timers well_formed_upd split: if_splits)
qed

text \<open>
  C10 (as amended). In every reachable state the arrays have their declared sizes, and
  an index outside an array is reachable but never touches storage: the access is
  rejected by a fault (Go's index-out-of-range panic), deterministically. \<open>CALL\<close> returns
  iff the stack pointer is below 16, \<open>RET\<close> iff it is between 1 and 16, \<open>Fx33\<close> iff
  \<open>I + 2 < 4096\<close>, \<open>Fx55\<close> and \<open>Fx65\<close> iff \<open>I + x < 4096\<close>; otherwise the cycle faults. Every
  cycle that returns leaves all arrays at their sizes.
\<close>

theorem bounds_checked:
  assumes "reachable s" and "fetch s = Some w"
  shows "well_formed s \<and>
    (drop_bit 12 w = 2 \<longrightarrow>
       (if unat (sp s) < 16
        then \<exists>s'. Cycle rnd s = Inr (None, s') \<and> well_formed s'
        else Cycle rnd s = Inl IndexOutOfRange)) \<and>
    (drop_bit 12 w = 0 \<and> w AND 0x00ff = 0x00ee \<longrightarrow>
       (if 1 \<le> unat (sp s) \<and> unat (sp s) \<le> 16
        then \<exists>s'. Cycle rnd s = Inr (None, s') \<and> well_formed s'
        else Cycle rnd s = Inl IndexOutOfRange)) \<and>
    (drop_bit 12 w = 0xF \<and> w AND 0x00ff = 0x0033 \<longrightarrow>
       (if unat (i s) + 2 < 4096
        then \<exists>s'. Cycle rnd s = Inr (None, s') \<and> well_formed s'
        else Cycle rnd s = Inl IndexOutOfRange)) \<and>
    (drop_bit 12 w = 0xF \<and> (w AND 0x00ff = 0x0055 \<or> w AND 0x00ff = 0x0065) \<longrightarrow>
       (if unat (i s) + unat (x_nib w) < 4096
        then \<exists>s'. Cycle rnd s = Inr (None, s') \<and> well_formed s'
        else Cycle rnd s = Inl IndexOutOfRange)) \<and>
    (\<forall>e s'. Cycle rnd s = Inr (e, s') \<longrightarrow> well_formed s')"
proof -
  have wf: "well_formed s" using assms(1) by (rule reachable_well_formed)
  show ?thesis
  proof (intro conjI impI allI)
    show "well_formed s" by (rule wf)
  next
    assume "drop_bit 12 w = 2"
    then show "if unat (sp s) < 16
        then \<exists>s'. Cycle rnd s = Inr (None, s') \<and> well_formed s'
        else Cycle rnd s = Inl IndexOutOfRange"
      using wf assms(2) by (intro call_bounds)
  next
    assume "drop_bit 12 w = 0 \<and> w AND 0x00ff = 0x00ee"
    then show "if 1 \<le> unat (sp s) \<and> unat (sp s) \<le> 16
        then \<exists>s'. Cycle rnd s = Inr (None, s') \<and> well_formed s'
        else Cycle rnd s = Inl IndexOutOfRange"
      using wf assms(2) by (intro ret_bounds) auto
  next
    assume "drop_bit 12 w = 0xF \<and> w AND 0x00ff = 0x0033"
    then show "if unat (i s) + 2 < 4096
        then \<exists>s'. Cycle rnd s = Inr (None, s') \<and> well_formed s'
        else Cycle rnd s = Inl IndexOutOfRange"
      using wf assms(2) by (intro bcd_cycle_bounds) auto
  next
    assume "drop_bit 12 w = 0xF \<and> (w AND 0x00ff = 0x0055 \<or> w AND 0x00ff = 0x0065)"
    then show "if unat (i s) + unat (x_nib w) < 4096
        then \<exists>s'. Cycle rnd s = Inr (None, s') \<and> well_formed s'
        else Cycle rnd s = Inl IndexOutOfRange"
      using wf assms(2) store_cycle_bounds[of s w rnd] load_cycle_bounds[of s w rnd] by blast
  next
    fix e s'
    assume "Cycle rnd s = Inr (e, s')"
    then show "well_formed s'" using wf by (rule Cycle_well_formed)
  qed
qed

theorem bounds_checked_witness:
  "reachable (machine [0x22, 0x04] (replicate 16 0)) \<and>
   fetch (machine [0x22, 0x04] (replicate 16 0)) = Some 0x2204 \<and>
   drop_bit 12 (0x2204 :: u16) = 2 \<and> unat (sp (machine [0x22, 0x04] (replicate 16 0))) < 16 \<and>
   (\<exists>s'. Cycle 0 (machine [0x22, 0x04] (replicate 16 0)) = Inr (None, s') \<and> well_formed s')"
proof -
  let ?m = "machine [0x22, 0x04] (replicate 16 0)"
  have r: "reachable ?m" by (rule machine_reachable)
  have f: "fetch ?m = Some 0x2204" by (simp add: fetch_machine)
  from bounds_checked[OF r f, of 0] show ?thesis
    using r f by (simp add: machine_fields)
qed

text \<open>
  C10 as stated fails: a new machine loaded with the program \<open>00EE\<close> is reachable, its
  stack is empty, and the cycle indexes the stack at 65535 and faults.
\<close>

theorem bounds_counterexample:
  "reachable (machine [0x00, 0xEE] (replicate 16 0)) \<and>
   sp (machine [0x00, 0xEE] (replicate 16 0)) = 0 \<and>
   Cycle 0 (machine [0x00, 0xEE] (replicate 16 0)) = Inl IndexOutOfRange"
  by (simp add: machine_reachable Cycle_def fetch_machine dispatch_def opHandler0_def Let_def
      panic_def machine_fields unat_minus_1_u16)


section \<open>Drawing a sprite\<close>

lemma for_each_append:
  "for_each (xs @ ys) body s =
     (case for_each xs body s of Inl e \<Rightarrow> Inl e | Inr t \<Rightarrow> for_each ys body t)"
  by (induction xs arbitrary: s) (auto split: sum.splits)

lemma for_range_invariant:
  assumes "Inv 0 s"
    and "\<And>k t. k < n \<Longrightarrow> Inv k t \<Longrightarrow> \<exists>t'. body k t = Inr t' \<and> Inv (Suc k) t'"
  shows "\<exists>s'. for_range n body s = Inr s' \<and> Inv n s'"
  using assms(2)
proof (induction n)
  case 0
  show ?case using assms(1) by (simp add: for_range_def)
next
  case (Suc n)
  have "\<exists>t. for_range n body s = Inr t \<and> Inv n t"
    using Suc.prems by (intro Suc.IH) auto
  then obtain t where t: "for_range n body s = Inr t" "Inv n t" by blast
  from Suc.prems[of n t] t(2) obtain t' where "body n t = Inr t'" "Inv (Suc n) t'" by auto
  with t show ?case by (simp add: for_range_def for_each_append)
qed

lemma unat_wrap_32: "y < 256 \<Longrightarrow> unat (((a :: u8) + of_nat y) mod 32) = (unat a + y) mod 32"
proof -
  assume "y < 256"
  then have "unat (a + of_nat y) = (unat a + y) mod 256"
    by (simp add: unat_word_ariths unat_of_nat)
  then have "unat ((a + of_nat y) mod 32) = ((unat a + y) mod 256) mod 32"
    by (simp add: unat_mod)
  also have "\<dots> = (unat a + y) mod 32"
    by (rule mod_mod_cancel) simp
  finally show ?thesis .
qed

lemma unat_wrap_64: "y < 256 \<Longrightarrow> unat (((a :: u8) + of_nat y) mod 64) = (unat a + y) mod 64"
proof -
  assume "y < 256"
  then have "unat (a + of_nat y) = (unat a + y) mod 256"
    by (simp add: unat_word_ariths unat_of_nat)
  then have "unat ((a + of_nat y) mod 64) = ((unat a + y) mod 256) mod 64"
    by (simp add: unat_mod)
  also have "\<dots> = (unat a + y) mod 64"
    by (rule mod_mod_cancel) simp
  finally show ?thesis .
qed

lemma mod_add_inj_le:
  assumes "(a + u) mod m = (a + v) mod m" and "u \<le> v" and "v < (m :: nat)"
  shows "u = v"
proof -
  from assms(1,2) obtain q where "a + v = a + u + m * q"
    using mod_eq_nat2E[of "a + u" m "a + v"] by auto
  then have q: "v = u + m * q" by simp
  have "q = 0"
  proof (rule ccontr)
    assume "q \<noteq> 0"
    then have "m \<le> m * q" by simp
    with q assms(3) show False by simp
  qed
  with q show ?thesis by simp
qed

lemma mod_add_inj:
  assumes "(a + x) mod m = (a + y) mod m" and "x < m" and "y < (m :: nat)"
  shows "x = y"
proof (cases "x \<le> y")
  case True
  with assms show ?thesis by (intro mod_add_inj_le[of a x m y])
next
  case False
  then have "y \<le> x" by simp
  with assms have "y = x" by (intro mod_add_inj_le[of a y m x]) simp_all
  then show ?thesis by simp
qed

lemma wrap_row_inj:
  assumes "row < 16" and "row' < 16" and "wrap_row sy row = wrap_row sy row'"
  shows "row = row'"
  using assms mod_add_inj[of sy row 32 row'] by (simp add: wrap_row_def)

lemma wrap_col_inj:
  assumes "col < 8" and "col' < 8" and "wrap_col sx col = wrap_col sx col'"
  shows "col = col'"
  using assms mod_add_inj[of sx col 64 col'] by (simp add: wrap_col_def)

lemma cell_update:
  assumes "r < length (display t)" and "c < length (display t ! r)" and "r' < length (display t)"
  shows "cell (t\<lparr>display := (display t)[r := (display t ! r)[c := v]]\<rparr>) r' c'
         = (if r' = r \<and> c' = c then v else cell t r' c')"
  using assms by (auto simp add: cell_def nth_list_update)


lemma wrap_lt: "wrap_row sy row < 32" "wrap_col sx col < 64"
  by (simp_all add: wrap_row_def wrap_col_def)

lemma draw_pixel_eq:
  assumes "well_formed t" and "row < 16" and "col < 8" and "unat (i t) + row < 4096"
  shows "draw_pixel sx0 sy0 row col t =
     (let r = wrap_row (unat sy0) row; c = wrap_col (unat sx0) col;
          old = cell t r c; new = old XOR sprite_bit t row col;
          t1 = t\<lparr>display := (display t)[r := (display t ! r)[c := new]]\<rparr>
      in Inr (if old = 1 \<and> new = 0 then set_reg VF 1 t1 else t1))"
proof -
  have r: "unat ((sy0 + of_nat row) mod of_nat DisplayHeight) = wrap_row (unat sy0) row"
    using assms(2) unat_wrap_32[of row sy0] by (simp add: DisplayHeight_def wrap_row_def)
  have c: "unat ((sx0 + of_nat col) mod of_nat DisplayWidth) = wrap_col (unat sx0) col"
    using assms(3) unat_wrap_64[of col sx0] by (simp add: DisplayWidth_def wrap_col_def)
  have a: "unat (i t + of_nat row) = unat (i t) + row"
    using assms(4) by (intro unat_add_small) simp
  have len: "length (memory t) = 4096" using assms(1) by (simp add: well_formed_def)
  show ?thesis
    unfolding draw_pixel_def r c a
    using assms(4) len by (simp add: Let_def cell_def sprite_bit_def)
qed

lemma cell_set_reg: "cell (set_reg r v t) = cell t"
  by (simp add: cell_def set_reg_def fun_eq_iff)

lemma draw_pixel_step:
  assumes d: "drawn s0 (unat sx0) (unat sy0) P t"
    and P: "\<forall>(row', col') \<in> P. row' < 16 \<and> col' < 8"
    and fresh: "(row, col) \<notin> P" and row: "row < 16" and col: "col < 8"
    and mem: "unat (i s0) + row < 4096"
  shows "\<exists>t'. draw_pixel sx0 sy0 row col t = Inr t' \<and>
              drawn s0 (unat sx0) (unat sy0) (insert (row, col) P) t'"
proof -
  let ?sx = "unat sx0" and ?sy = "unat sy0"
  define r where "r = wrap_row ?sy row"
  define c where "c = wrap_col ?sx col"
  define new where "new = cell s0 r c XOR sprite_bit s0 row col"
  define t1 where "t1 = t\<lparr>display := (display t)[r := (display t ! r)[c := new]]\<rparr>"
  define t' where "t' = (if cell s0 r c = 1 \<and> new = 0 then set_reg VF 1 t1 else t1)"
  from d have wf: "well_formed t" and it: "i t = i s0" and mt: "memory t = memory s0"
    and pt: "pc t = pc s0"
    and drew: "\<And>row' col'. (row', col') \<in> P \<Longrightarrow>
        cell t (wrap_row ?sy row') (wrap_col ?sx col')
          = cell s0 (wrap_row ?sy row') (wrap_col ?sx col') XOR sprite_bit s0 row' col'"
    and rest: "\<And>r' c'. r' < 32 \<Longrightarrow> c' < 64 \<Longrightarrow>
        (\<forall>(row', col') \<in> P. r' \<noteq> wrap_row ?sy row' \<or> c' \<noteq> wrap_col ?sx col') \<Longrightarrow>
        cell t r' c' = cell s0 r' c'"
    and vt: "vx t = (vx s0)[15 := (if \<exists>(row', col') \<in> P. erased s0 ?sx ?sy row' col'
                                  then 1 else vx s0 ! 15)]"
    by (auto simp add: drawn_def)
  have rc: "r < 32" "c < 64" by (simp_all add: r_def c_def wrap_lt)
  have dims: "length (display t) = 32" "length (display t ! r) = 64"
    using wf rc by (simp_all add: well_formed_def DisplayHeight_def DisplayWidth_def
        list_all_length)
  have apart: "r \<noteq> wrap_row ?sy row' \<or> c \<noteq> wrap_col ?sx col'" if "(row', col') \<in> P"
    for row' col'
  proof (rule ccontr)
    assume "\<not> ?thesis"
    then have "wrap_row ?sy row = wrap_row ?sy row'" "wrap_col ?sx col = wrap_col ?sx col'"
      by (simp_all add: r_def c_def)
    moreover from P that have "row' < 16" "col' < 8" by auto
    ultimately have "row = row'" "col = col'"
      using row col wrap_row_inj wrap_col_inj by blast+
    with that fresh show False by simp
  qed
  have old: "cell t r c = cell s0 r c"
    using rc apart by (intro rest) auto
  have sb: "sprite_bit t row col = sprite_bit s0 row col"
    by (simp add: sprite_bit_def it mt)
  have mem_t: "unat (i t) + row < 4096" using mem by (simp add: it)
  have run: "draw_pixel sx0 sy0 row col t = Inr t'"
    unfolding t'_def t1_def new_def
    using draw_pixel_eq[OF wf row col mem_t, of sx0 sy0]
    by (simp only: Let_def r_def[symmetric] c_def[symmetric] old sb)
  have cell1: "cell t1 r' c' = (if r' = r \<and> c' = c then new else cell t r' c')"
    if "r' < 32" for r' c'
    unfolding t1_def using dims rc that by (intro cell_update) simp_all
  have cell': "cell t' = cell t1"
    by (simp add: t'_def cell_set_reg)
  have wf1: "well_formed t1"
    using kept_pixel[of t r c new] wf by (simp add: kept_def t1_def)
  have wf': "well_formed t'"
    using wf1 by (simp add: t'_def well_formed_def set_reg_def)
  have frame: "i t' = i s0" "memory t' = memory s0" "pc t' = pc s0"
    by (simp_all add: t'_def t1_def set_reg_def it mt pt)
  have hit: "erased s0 ?sx ?sy row col \<longleftrightarrow> cell s0 r c = 1 \<and> new = 0"
    by (simp add: erased_def r_def c_def new_def)
  have vx1: "vx t1 = vx t" by (simp add: t1_def)
  have vx': "vx t' = (vx s0)[15 := (if \<exists>(row', col') \<in> insert (row, col) P.
                 erased s0 ?sx ?sy row' col' then 1 else vx s0 ! 15)]"
    using hit by (simp add: t'_def set_reg_def vx1 vt VF_def)
  have drew': "cell t' (wrap_row ?sy row') (wrap_col ?sx col')
          = cell s0 (wrap_row ?sy row') (wrap_col ?sx col') XOR sprite_bit s0 row' col'"
    if "(row', col') \<in> insert (row, col) P" for row' col'
  proof (cases "(row', col') = (row, col)")
    case True
    then show ?thesis
      using cell1[of r c] rc by (simp add: cell' new_def r_def c_def)
  next
    case False
    with that have in_P: "(row', col') \<in> P" by auto
    from apart[OF in_P] have "\<not> (wrap_row ?sy row' = r \<and> wrap_col ?sx col' = c)" by auto
    then have "cell t1 (wrap_row ?sy row') (wrap_col ?sx col')
        = cell t (wrap_row ?sy row') (wrap_col ?sx col')"
      using cell1[of "wrap_row ?sy row'" "wrap_col ?sx col'"] by (auto simp add: wrap_lt)
    then show ?thesis using drew[OF in_P] by (simp add: cell')
  qed
  have rest': "cell t' r' c' = cell s0 r' c'"
    if "r' < 32" "c' < 64"
      "\<forall>(row', col') \<in> insert (row, col) P. r' \<noteq> wrap_row ?sy row' \<or> c' \<noteq> wrap_col ?sx col'"
    for r' c'
  proof -
    from that(3) have "r' \<noteq> r \<or> c' \<noteq> c" by (simp add: r_def c_def)
    then have "cell t1 r' c' = cell t r' c'" using cell1[OF that(1), of c'] by auto
    moreover have "cell t r' c' = cell s0 r' c'"
      using that by (intro rest) auto
    ultimately show ?thesis by (simp add: cell')
  qed
  have "drawn s0 ?sx ?sy (insert (row, col) P) t'"
    unfolding drawn_def
    using wf' frame vx' drew' rest' by (intro conjI) (simp_all, blast+)
  with run show ?thesis by blast
qed


lemma pairs_before_simps:
  "pairs_before 0 0 = {}"
  "insert (y, k) (pairs_before y k) = pairs_before y (Suc k)"
  "pairs_before y 8 = pairs_before (Suc y) 0"
  "(y, k) \<notin> pairs_before y k"
  by (auto simp add: pairs_before_def less_Suc_eq)

lemma pairs_before_bounded:
  "y < 16 \<Longrightarrow> k \<le> 8 \<Longrightarrow> \<forall>(row', col') \<in> pairs_before y k. row' < 16 \<and> col' < 8"
  by (auto simp add: pairs_before_def)

lemma draw_row:
  assumes "drawn s0 (unat sx0) (unat sy0) (pairs_before y 0) t"
    and "y < 16" and "unat (i s0) + y < 4096"
  shows "\<exists>t'. for_range 8 (draw_pixel sx0 sy0 y) t = Inr t' \<and>
              drawn s0 (unat sx0) (unat sy0) (pairs_before (Suc y) 0) t'"
proof -
  have "\<exists>t'. for_range 8 (draw_pixel sx0 sy0 y) t = Inr t' \<and>
              drawn s0 (unat sx0) (unat sy0) (pairs_before y 8) t'"
  proof (rule for_range_invariant[where Inv="\<lambda>k. drawn s0 (unat sx0) (unat sy0) (pairs_before y k)"])
    show "drawn s0 (unat sx0) (unat sy0) (pairs_before y 0) t" by (rule assms(1))
  next
    fix k u
    assume k: "k < 8" and u: "drawn s0 (unat sx0) (unat sy0) (pairs_before y k) u"
    have "\<exists>t'. draw_pixel sx0 sy0 y k u = Inr t' \<and>
            drawn s0 (unat sx0) (unat sy0) (insert (y, k) (pairs_before y k)) t'"
      using u pairs_before_bounded[OF assms(2), of k] pairs_before_simps(4)[of y k]
        assms(2) k assms(3)
      by (intro draw_pixel_step) simp_all
    then show "\<exists>t'. draw_pixel sx0 sy0 y k u = Inr t' \<and>
            drawn s0 (unat sx0) (unat sy0) (pairs_before y (Suc k)) t'"
      by (simp only: pairs_before_simps(2))
  qed
  then show ?thesis by (simp only: pairs_before_simps(3))
qed

lemma drawn_start: "well_formed s0 \<Longrightarrow> drawn s0 sx sy {} s0"
  by (simp add: drawn_def)

lemma draw_rows:
  assumes "well_formed s0" and "n \<le> 16" and "unat (i s0) + n \<le> 4096"
  shows "\<exists>s2. for_range n (\<lambda>y. for_range 8 (draw_pixel sx0 sy0 y)) s0 = Inr s2 \<and>
              drawn s0 (unat sx0) (unat sy0) (pairs_before n 0) s2"
proof (rule for_range_invariant[where Inv="\<lambda>y. drawn s0 (unat sx0) (unat sy0) (pairs_before y 0)"])
  show "drawn s0 (unat sx0) (unat sy0) (pairs_before 0 0) s0"
    using drawn_start[OF assms(1)] by (simp add: pairs_before_simps(1))
next
  fix y t
  assume "y < n" and "drawn s0 (unat sx0) (unat sy0) (pairs_before y 0) t"
  then show "\<exists>t'. for_range 8 (draw_pixel sx0 sy0 y) t = Inr t' \<and>
              drawn s0 (unat sx0) (unat sy0) (pairs_before (Suc y) 0) t'"
    using assms(2,3) by (intro draw_row) simp_all
qed

lemma in_pairs_before_0: "(row, col) \<in> pairs_before n 0 \<longleftrightarrow> row < n \<and> col < 8"
  by (simp add: pairs_before_def)


lemma ball_pairs:
  "(\<forall>(row, col) \<in> pairs_before n 0. Q row col) \<longleftrightarrow> (\<forall>row < n. \<forall>col < 8. Q row col)"
  by (auto simp add: pairs_before_def)

lemma bex_pairs:
  "(\<exists>(row, col) \<in> pairs_before n 0. Q row col) \<longleftrightarrow> (\<exists>row < n. \<exists>col < 8. Q row col)"
  by (auto simp add: pairs_before_def)

lemma opHandlerD_drawn:
  assumes "well_formed s" and "fetch s = Some w" and "drop_bit 12 w = 0xD"
    and "unat (i s) + unat (n_nib w) \<le> 4096"
  shows "\<exists>s2. Cycle rnd s = Inr (None, timers (advance s2)) \<and>
     drawn (set_reg VF 0 (s\<lparr>opcode := w\<rparr>)) (unat (reg s (x_nib w))) (unat (reg s (y_nib w)))
       (pairs_before (unat (n_nib w)) 0) s2"
proof -
  let ?t0 = "s\<lparr>opcode := w\<rparr>"
  let ?s0 = "set_reg VF 0 ?t0"
  have wf0: "well_formed ?s0"
    using assms(1) by (simp add: well_formed_def set_reg_def)
  have i0: "i ?s0 = i s" by (simp add: set_reg_def)
  have n: "unat (n_nib w) \<le> 16" using n_nib_lt[of w] by simp
  from draw_rows[OF wf0 n, of "reg s (x_nib w)" "reg s (y_nib w)"] assms(4)
  obtain s2 where
    loop: "for_range (unat (n_nib w))
             (\<lambda>y. for_range 8 (draw_pixel (reg s (x_nib w)) (reg s (y_nib w)) y)) ?s0 = Inr s2"
    and d: "drawn ?s0 (unat (reg s (x_nib w))) (unat (reg s (y_nib w)))
              (pairs_before (unat (n_nib w)) 0) s2"
    by (auto simp add: i0)
  have regs: "reg ?t0 (x_nib w) = reg s (x_nib w)" "reg ?t0 (y_nib w) = reg s (y_nib w)"
    by (simp_all add: reg_def)
  have "opHandlerD ?t0 = ok (advance s2)"
    using loop by (simp add: opHandlerD_def Let_def regs)
  then have "Cycle rnd s = Inr (None, timers (advance s2))"
    using assms(2,3) by (simp add: Cycle_fetch dispatch_def ok_def)
  with d show ?thesis by blast
qed

lemma cell_frame: "cell (timers t) = cell t" "cell (advance t) = cell t"
  "cell (set_reg r v t) = cell t" "cell (t\<lparr>opcode := w\<rparr>) = cell t"
  by (simp_all add: cell_def fun_eq_iff timers_frame advance_def set_reg_def)

lemma sprite_bit_frame:
  "sprite_bit (set_reg r v t) = sprite_bit t" "sprite_bit (t\<lparr>opcode := w\<rparr>) = sprite_bit t"
  by (simp_all add: sprite_bit_def fun_eq_iff set_reg_def)

text \<open>
  C4 (as amended). For every sprite draw \<open>Dxyn\<close> whose \<open>n\<close> sprite bytes lie in memory
  (\<open>I + n \<le> 4096\<close>), whatever the start coordinates, the height, the memory and the
  display: each sprite bit is XORed into the display cell at row \<open>(startY + row) mod 32\<close>
  and column \<open>(startX + col) mod 64\<close>, and every other cell is left as it was. So with
  \<open>startX = 63\<close> the leftmost sprite bit lands in column 63, the second one wraps to
  column 0 and the rightmost one (column 7 of the sprite) lands in column 6; with
  \<open>startY = 31\<close> and a height of at least 2 the second sprite row wraps to row 0. The flag
  register ends as 1 if some pixel of the draw went from 1 to 0, and as 0 otherwise.
\<close>

theorem draw_Dxyn:
  assumes "well_formed s" and "fetch s = Some w" and "drop_bit 12 w = 0xD"
    and "unat (i s) + unat (n_nib w) \<le> 4096"
  shows "\<exists>s'. Cycle rnd s = Inr (None, s') \<and>
     (\<forall>row < unat (n_nib w). \<forall>col < 8.
        cell s' (wrap_row (unat (reg s (y_nib w))) row) (wrap_col (unat (reg s (x_nib w))) col)
        = cell s (wrap_row (unat (reg s (y_nib w))) row) (wrap_col (unat (reg s (x_nib w))) col)
          XOR sprite_bit s row col) \<and>
     (\<forall>r < 32. \<forall>c < 64.
        (\<forall>row < unat (n_nib w). \<forall>col < 8.
           r \<noteq> wrap_row (unat (reg s (y_nib w))) row \<or>
           c \<noteq> wrap_col (unat (reg s (x_nib w))) col) \<longrightarrow>
        cell s' r c = cell s r c) \<and>
     reg s' VF =
       (if \<exists>row < unat (n_nib w). \<exists>col < 8.
             cell s (wrap_row (unat (reg s (y_nib w))) row)
                    (wrap_col (unat (reg s (x_nib w))) col) = 1 \<and>
             cell s' (wrap_row (unat (reg s (y_nib w))) row)
                     (wrap_col (unat (reg s (x_nib w))) col) = 0
        then 1 else 0) \<and>
     (unat (reg s (x_nib w)) = 63 \<longrightarrow>
        (\<forall>row < unat (n_nib w).
           cell s' (wrap_row (unat (reg s (y_nib w))) row) 63
             = cell s (wrap_row (unat (reg s (y_nib w))) row) 63 XOR sprite_bit s row 0 \<and>
           cell s' (wrap_row (unat (reg s (y_nib w))) row) 0
             = cell s (wrap_row (unat (reg s (y_nib w))) row) 0 XOR sprite_bit s row 1 \<and>
           cell s' (wrap_row (unat (reg s (y_nib w))) row) 6
             = cell s (wrap_row (unat (reg s (y_nib w))) row) 6 XOR sprite_bit s row 7)) \<and>
     (unat (reg s (y_nib w)) = 31 \<and> 1 < unat (n_nib w) \<longrightarrow>
        (\<forall>col < 8.
           cell s' 0 (wrap_col (unat (reg s (x_nib w))) col)
             = cell s 0 (wrap_col (unat (reg s (x_nib w))) col) XOR sprite_bit s 1 col)) \<and>
     pc s' = pc s + 2"
proof -
  define sx where "sx = unat (reg s (x_nib w))"
  define sy where "sy = unat (reg s (y_nib w))"
  define n where "n = unat (n_nib w)"
  define s0 where "s0 = set_reg VF 0 (s\<lparr>opcode := w\<rparr>)"
  from opHandlerD_drawn[OF assms, of rnd] obtain s2 where
    run: "Cycle rnd s = Inr (None, timers (advance s2))"
    and d: "drawn s0 sx sy (pairs_before n 0) s2"
    by (auto simp add: sx_def sy_def n_def s0_def)
  define s' where "s' = timers (advance s2)"
  have c0: "cell s0 = cell s" and b0: "sprite_bit s0 = sprite_bit s"
    by (simp_all add: s0_def cell_frame sprite_bit_frame)
  have c': "cell s' = cell s2" by (simp add: s'_def cell_frame)
  have len: "length (vx s) = 16" using assms(1) by (simp add: well_formed_def)
  have vx0: "vx s0 = (vx s)[15 := 0]" by (simp add: s0_def set_reg_def VF_def)
  note d' = d[unfolded drawn_def ball_pairs bex_pairs c0 b0, folded c']
  from d' have drew: "\<And>row col. row < n \<Longrightarrow> col < 8 \<Longrightarrow>
        cell s' (wrap_row sy row) (wrap_col sx col)
          = cell s (wrap_row sy row) (wrap_col sx col) XOR sprite_bit s row col"
    by blast
  from d' have rest: "\<And>r c. r < 32 \<Longrightarrow> c < 64 \<Longrightarrow>
        (\<forall>row < n. \<forall>col < 8. r \<noteq> wrap_row sy row \<or> c \<noteq> wrap_col sx col) \<Longrightarrow>
        cell s' r c = cell s r c"
    by blast
  from d' have "vx s2 = (vx s0)[15 := (if \<exists>row < n. \<exists>col < 8. erased s0 sx sy row col
                                  then 1 else vx s0 ! 15)]"
    by blast
  then have flag0: "reg s' VF = (if \<exists>row < n. \<exists>col < 8. erased s0 sx sy row col then 1 else 0)"
    using len
    by (simp add: s'_def reg_def VF_def timers_frame advance_def vx0)
  have er: "erased s0 sx sy row col \<longleftrightarrow>
      cell s (wrap_row sy row) (wrap_col sx col) = 1 \<and>
      cell s' (wrap_row sy row) (wrap_col sx col) = 0"
    if "row < n" "col < 8" for row col
    using drew[OF that] by (simp add: erased_def c0 b0)
  have flag: "reg s' VF = (if \<exists>row < n. \<exists>col < 8.
        cell s (wrap_row sy row) (wrap_col sx col) = 1 \<and>
        cell s' (wrap_row sy row) (wrap_col sx col) = 0 then 1 else 0)"
    unfolding flag0 using er by (intro if_cong refl) blast
  from d have pc': "pc s' = pc s + 2"
    by (simp add: drawn_def s'_def timers_frame advance_def s0_def set_reg_def)
  have x63: "cell s' (wrap_row sy row) 63 = cell s (wrap_row sy row) 63 XOR sprite_bit s row 0 \<and>
      cell s' (wrap_row sy row) 0 = cell s (wrap_row sy row) 0 XOR sprite_bit s row 1 \<and>
      cell s' (wrap_row sy row) 6 = cell s (wrap_row sy row) 6 XOR sprite_bit s row 7"
    if "sx = 63" "row < n" for row
    using drew[OF that(2), of 0] drew[OF that(2), of 1] drew[OF that(2), of 7] that(1)
    by (simp add: wrap_col_def)
  have y31: "cell s' 0 (wrap_col sx col) = cell s 0 (wrap_col sx col) XOR sprite_bit s 1 col"
    if "sy = 31" "1 < n" "col < 8" for col
    using drew[OF that(2,3)] that(1) by (simp add: wrap_row_def)
  show ?thesis
    unfolding sx_def[symmetric] sy_def[symmetric] n_def[symmetric]
    apply (rule exI[of _ s'])
    apply (intro conjI)
    subgoal using run by (simp add: s'_def)
    subgoal using drew by blast
    subgoal using rest by blast
    subgoal by (rule flag)
    subgoal using x63 by blast
    subgoal using y31 by blast
    subgoal by (rule pc')
    done
qed

theorem draw_Dxyn_witness:
  "well_formed ((machine [0xD0, 0x11, 0x01] ((replicate 16 0)[0 := 63]))\<lparr>i := 0x202\<rparr>) \<and>
   fetch ((machine [0xD0, 0x11, 0x01] ((replicate 16 0)[0 := 63]))\<lparr>i := 0x202\<rparr>) = Some 0xD011 \<and>
   drop_bit 12 (0xD011 :: u16) = 0xD \<and>
   unat (i ((machine [0xD0, 0x11, 0x01] ((replicate 16 0)[0 := 63]))\<lparr>i := 0x202\<rparr>))
     + unat (n_nib 0xD011) \<le> 4096 \<and>
   unat (reg ((machine [0xD0, 0x11, 0x01] ((replicate 16 0)[0 := 63]))\<lparr>i := 0x202\<rparr>)
           (x_nib 0xD011)) = 63 \<and>
   (\<exists>s'. Cycle 0 ((machine [0xD0, 0x11, 0x01] ((replicate 16 0)[0 := 63]))\<lparr>i := 0x202\<rparr>)
           = Inr (None, s') \<and>
         cell s' 0 6 = 1 \<and> cell s' 0 0 = 0 \<and> pc s' = 0x202)"
proof -
  let ?m = "machine [0xD0, 0x11, 0x01] ((replicate 16 0)[0 := 63])"
  let ?t = "?m\<lparr>i := 0x202\<rparr>"
  have wf: "well_formed ?t"
    using well_formed_machine[of "(replicate 16 0)[0 := 63]" "[0xD0, 0x11, 0x01]"]
    by (simp add: well_formed_def)
  have f: "fetch ?t = Some 0xD011"
    using fetch_cong[of ?t ?m] by (simp add: fetch_machine)
  have d: "drop_bit 12 (0xD011 :: u16) = 0xD" by simp
  have nib: "x_nib 0xD011 = 0" "y_nib 0xD011 = 1" "n_nib 0xD011 = 1"
    by (simp_all add: x_nib_def y_nib_def n_nib_def)
  have n: "unat (i ?t) + unat (n_nib 0xD011) \<le> 4096" by (simp add: nib)
  have sx: "unat (reg ?t (x_nib 0xD011)) = 63" and sy: "unat (reg ?t (y_nib 0xD011)) = 0"
    by (simp_all add: nib reg_def machine_fields)
  have bits: "sprite_bit ?t 0 1 = 0" "sprite_bit ?t 0 7 = 1"
    by (simp_all add: sprite_bit_def memory_machine_at)
  have cells: "cell ?t 0 0 = 0" "cell ?t 0 6 = 0"
    by (simp_all add: cell_def machine_fields DisplayHeight_def DisplayWidth_def)
  from draw_Dxyn[OF wf f d n, of 0] obtain s' where
    run: "Cycle 0 ?t = Inr (None, s')"
    and x63: "unat (reg ?t (x_nib 0xD011)) = 63 \<longrightarrow>
        (\<forall>row < unat (n_nib 0xD011).
           cell s' (wrap_row (unat (reg ?t (y_nib 0xD011))) row) 63
             = cell ?t (wrap_row (unat (reg ?t (y_nib 0xD011))) row) 63 XOR sprite_bit ?t row 0 \<and>
           cell s' (wrap_row (unat (reg ?t (y_nib 0xD011))) row) 0
             = cell ?t (wrap_row (unat (reg ?t (y_nib 0xD011))) row) 0 XOR sprite_bit ?t row 1 \<and>
           cell s' (wrap_row (unat (reg ?t (y_nib 0xD011))) row) 6
             = cell ?t (wrap_row (unat (reg ?t (y_nib 0xD011))) row) 6 XOR sprite_bit ?t row 7)"
    and pc': "pc s' = pc ?t + 2"
    by blast
  have row0: "0 < unat (n_nib 0xD011)" by (simp add: nib)
  from x63 sx row0
  have "cell s' (wrap_row (unat (reg ?t (y_nib 0xD011))) 0) 0
          = cell ?t (wrap_row (unat (reg ?t (y_nib 0xD011))) 0) 0 XOR sprite_bit ?t 0 1 \<and>
        cell s' (wrap_row (unat (reg ?t (y_nib 0xD011))) 0) 6
          = cell ?t (wrap_row (unat (reg ?t (y_nib 0xD011))) 0) 6 XOR sprite_bit ?t 0 7"
    by blast
  then have "cell s' (wrap_row 0 0) 0 = cell ?t (wrap_row 0 0) 0 XOR sprite_bit ?t 0 1 \<and>
      cell s' (wrap_row 0 0) 6 = cell ?t (wrap_row 0 0) 6 XOR sprite_bit ?t 0 7"
    by (simp only: sy)
  then have "cell s' 0 0 = 0" "cell s' 0 6 = 1"
    unfolding bits by (simp_all add: wrap_row_def cells)
  with run pc' wf f d n sx show ?thesis
    by (auto simp add: machine_fields)
qed


lemma upt_8: "[0..<8] = [0, 1, 2, 3, 4, 5, 6, 7]"
  by (simp add: upt_rec_numeral upt_conv_Cons)

lemma draw_rightmost_bit_example:
  "reg ((machine [0xD0, 0x11, 0x01] ((replicate 16 0)[0 := 63]))\<lparr>i := 0x202\<rparr>) 0 = 63 \<and>
   memory ((machine [0xD0, 0x11, 0x01] ((replicate 16 0)[0 := 63]))\<lparr>i := 0x202\<rparr>) ! 0x202 = 1 \<and>
   map_option (\<lambda>s. (cell s 0 63, cell s 0 0, cell s 0 6))
     (returned (Cycle 0 ((machine [0xD0, 0x11, 0x01] ((replicate 16 0)[0 := 63]))\<lparr>i := 0x202\<rparr>)))
   = Some (0, 0, 1)"
  by (simp add: Cycle_def fetch_def machine_fields length_memory_machine memory_machine_at
      dispatch_def opHandlerD_def Let_def ok_def advance_def set_reg_def reg_def VF_def
      x_nib_def y_nib_def n_nib_def for_range_def upt_8 draw_pixel_def
      DisplayHeight_def DisplayWidth_def cell_def timers_frame returned_def
      )

lemma draw_fault_example:
  "Cycle 0 ((machine [0xD0, 0x01] (replicate 16 0))\<lparr>i := 0x1000\<rparr>) = Inl IndexOutOfRange"
  by (simp add: Cycle_def fetch_def machine_fields length_memory_machine memory_machine_at
      dispatch_def opHandlerD_def Let_def ok_def advance_def set_reg_def reg_def VF_def
      x_nib_def y_nib_def n_nib_def for_range_def upt_8 draw_pixel_def
      DisplayHeight_def DisplayWidth_def)

text \<open>
  C4 as stated fails in its example: a sprite whose only set bit is the rightmost one,
  drawn at \<open>startX = 63\<close> on an empty display, sets column 6 and leaves column 0 unset.
  And a draw whose sprite byte lies outside memory does not end at all.
\<close>

theorem draw_wrap_counterexample:
  "reg ((machine [0xD0, 0x11, 0x01] ((replicate 16 0)[0 := 63]))\<lparr>i := 0x202\<rparr>) 0 = 63 \<and>
   memory ((machine [0xD0, 0x11, 0x01] ((replicate 16 0)[0 := 63]))\<lparr>i := 0x202\<rparr>) ! 0x202 = 1 \<and>
   pixel 0 63 (Cycle 0 ((machine [0xD0, 0x11, 0x01] ((replicate 16 0)[0 := 63]))\<lparr>i := 0x202\<rparr>)) = Some 0 \<and>
   pixel 0 0 (Cycle 0 ((machine [0xD0, 0x11, 0x01] ((replicate 16 0)[0 := 63]))\<lparr>i := 0x202\<rparr>)) = Some 0 \<and>
   pixel 0 6 (Cycle 0 ((machine [0xD0, 0x11, 0x01] ((replicate 16 0)[0 := 63]))\<lparr>i := 0x202\<rparr>)) = Some 1 \<and>
   Cycle 0 ((machine [0xD0, 0x01] (replicate 16 0))\<lparr>i := 0x1000\<rparr>) = Inl IndexOutOfRange"
  using draw_rightmost_bit_example draw_fault_example
  by (auto simp add: pixel_def)

end
